theory Spec2Isabelle
  imports Main "HOL-Library.AList" "HOL-Library.Option_ord" "HOL-Library.Product_Lexorder"
begin

section \<open>Python values used by weasy.css\<close>

text \<open>
  Exceptions of the Python source are values of \<open>error\<close>; a function that can raise
  returns \<open>error + 'a\<close> with \<open>Inl\<close> for the exception.
\<close>

datatype error = KeyError | NameError | TypeError | AssertionError | ExpressionError

text \<open>Truthiness of a Python string: only the empty string is false.\<close>

definition truthy :: "string \<Rightarrow> bool" where
  "truthy s = (s \<noteq> [])"

text \<open>The \<open>assert\<close> statement: raises AssertionError when its operand is false.\<close>

definition py_assert :: "bool \<Rightarrow> error + unit" where
  "py_assert b = (if b then Inr () else Inl AssertionError)"

text \<open>
  A key of the style dicts is \<open>(element, pseudo_type)\<close>: the element is an lxml
  element or the string \<open>'@page'\<close>, the pseudo type a string or \<open>None\<close>.
\<close>

datatype 'e element_ref = AtPage | Element 'e

type_synonym pseudo_type = "string option"

type_synonym 'e pseudo_key = "'e element_ref \<times> pseudo_type"

text \<open>
  A specificity is either the 4-tuple cssutils gives a selector (and the literal
  \<open>(1, 0, 0, 0)\<close> of a style attribute) or the integer of
  \<open>PAGE_PSEUDOCLASS_SPECIFICITY\<close>. Python 2 compares tuples lexicographically and
  puts every number below every tuple.
\<close>

datatype specificity = Number int | Tuple "int \<times> int \<times> int \<times> int"

instantiation specificity :: linorder
begin

fun less_eq_specificity :: "specificity \<Rightarrow> specificity \<Rightarrow> bool" where
  "less_eq_specificity (Number a) (Number b) = (a \<le> b)"
| "less_eq_specificity (Number a) (Tuple t) = True"
| "less_eq_specificity (Tuple s) (Number b) = False"
| "less_eq_specificity (Tuple s) (Tuple t) = (s \<le> t)"

definition less_specificity :: "specificity \<Rightarrow> specificity \<Rightarrow> bool" where
  "less_specificity x y = (x \<le> y \<and> \<not> y \<le> x)"

instance
proof
  fix x y z :: specificity
  show "(x < y) = (x \<le> y \<and> \<not> y \<le> x)"
    by (simp add: less_specificity_def)
  show "x \<le> x"
    by (cases x) simp_all
  show "x \<le> y \<Longrightarrow> y \<le> z \<Longrightarrow> x \<le> z"
    by (cases x; cases y; cases z) auto
  show "x \<le> y \<Longrightarrow> y \<le> x \<Longrightarrow> x = y"
    by (cases x; cases y) auto
  show "x \<le> y \<or> y \<le> x"
    by (cases x; cases y) auto
qed

end

text \<open>
  A weight is the tuple \<open>(precedence, specificity)\<close>. The precedence is what
  \<open>declaration_precedence\<close> returned: an integer, or \<open>None\<close>, which Python 2 puts
  below every integer (as the order on \<open>option\<close> does).
\<close>

type_synonym weight = "int option \<times> specificity"

section \<open>Module constants\<close>

definition PSEUDO_ELEMENTS :: "string list" where
  "PSEUDO_ELEMENTS = [''before'', ''after'', ''first-line'', ''first-letter'']"

text \<open>The two dicts keyed by the page pseudo-class; the key \<open>None\<close> is no pseudo-class.\<close>

definition PAGE_PSEUDOCLASS_TARGETS :: "string option \<rightharpoonup> string list" where
  "PAGE_PSEUDOCLASS_TARGETS =
     [None \<mapsto> [''left'', ''right'', ''first_left'', ''first_right''],
      Some '':left'' \<mapsto> [''left'', ''first_left''],
      Some '':right'' \<mapsto> [''right'', ''first_right''],
      Some '':first'' \<mapsto> [''first_left'', ''first_right'']]"

definition PAGE_PSEUDOCLASS_SPECIFICITY :: "string option \<rightharpoonup> int" where
  "PAGE_PSEUDOCLASS_SPECIFICITY =
     [None \<mapsto> 0, Some '':left'' \<mapsto> 1, Some '':right'' \<mapsto> 1, Some '':first'' \<mapsto> 10]"

section \<open>declaration_precedence\<close>

text \<open>
  \<open>importance\<close> is the declaration's priority string (empty when the declaration is
  not important). The last branch of the source is
  \<^verbatim>\<open>assert ValueError('Unkown origin: %r' % origin)\<close>: the operand of the assert is an
  exception instance, which is true, so the assert passes and the function ends without
  a \<open>return\<close>, that is, returns \<open>None\<close>.
\<close>

definition declaration_precedence :: "string \<Rightarrow> string \<Rightarrow> error + int option" where
  "declaration_precedence origin importance =
     (if origin = ''user agent'' then Inr (Some 1)
      else if origin = ''user'' \<and> \<not> truthy importance then Inr (Some 2)
      else if origin = ''author'' \<and> \<not> truthy importance then Inr (Some 3)
      else if origin = ''author'' then Inr (Some 4)
      else if origin = ''user'' then Inr (Some 5)
      else (case py_assert True of Inl e \<Rightarrow> Inl e | Inr _ \<Rightarrow> Inr None))"

section \<open>match_page_selector\<close>

text \<open>
  The generator is modelled by what iterating it to its end gives: the exception it
  raises, or the warnings it logged and the list of triples it yielded. The lookup
  \<^verbatim>\<open>PAGE_PSEUDOCLASS_SPECIFICITY[pseudo_class]\<close> is a subscript, which raises KeyError
  on a missing key, and it stands before the test of \<open>page_types\<close>.
\<close>

type_synonym 'e matched = "'e element_ref \<times> pseudo_type \<times> specificity"

definition page_warning :: "string \<Rightarrow> string" where
  "page_warning selector = ''Unsupported @page selector '' @ selector"

definition match_page_selector :: "string \<Rightarrow> error + (string list \<times> 'e matched list)" where
  "match_page_selector selector =
     (let pseudo_class = (if truthy selector then Some selector else None);
          page_types = PAGE_PSEUDOCLASS_TARGETS pseudo_class
      in case PAGE_PSEUDOCLASS_SPECIFICITY pseudo_class of
           None \<Rightarrow> Inl KeyError
         | Some specificity \<Rightarrow>
             (case page_types of
                Some pts \<Rightarrow> Inr ([], map (\<lambda>page_type. (AtPage, Some page_type, Number specificity)) pts)
              | None \<Rightarrow> Inr ([page_warning selector], [])))"


section \<open>The cascaded styles and add_declaration\<close>

text \<open>
  \<open>cascaded_styles\<close> is a dict from keys to dicts from property names to
  \<open>(values, weight)\<close>. Both are association lists with one entry per key, kept in
  insertion order (Python leaves the iteration order of a dict open); \<open>map_of\<close> is the
  lookup and \<open>AList.update\<close> the assignment \<open>d[k] = v\<close>.
\<close>

type_synonym 'v cascaded_style = "(string \<times> ('v \<times> weight)) list"

type_synonym ('e, 'v) cascaded_styles = "('e pseudo_key \<times> 'v cascaded_style) list"

definition add_declaration ::
  "('e, 'v) cascaded_styles \<Rightarrow> string \<Rightarrow> 'v \<Rightarrow> weight \<Rightarrow> 'e element_ref \<Rightarrow> pseudo_type
     \<Rightarrow> ('e, 'v) cascaded_styles" where
  "add_declaration cascaded_styles prop_name prop_values weight element pseudo_type =
     (let style = (case map_of cascaded_styles (element, pseudo_type) of
                     None \<Rightarrow> [] | Some s \<Rightarrow> s);
          replace = (case map_of style prop_name of
                       None \<Rightarrow> True
                     | Some (old_values, previous_weight) \<Rightarrow> previous_weight \<le> weight)
      in AList.update (element, pseudo_type)
           (if replace then AList.update prop_name (prop_values, weight) style else style)
           cascaded_styles)"

text \<open>What is stored for a property under a key: \<open>cascaded_styles[key][prop_name]\<close>, if any.\<close>

definition stored ::
  "('e, 'v) cascaded_styles \<Rightarrow> 'e pseudo_key \<Rightarrow> string \<Rightarrow> ('v \<times> weight) option" where
  "stored cascaded_styles key prop_name =
     (case map_of cascaded_styles key of None \<Rightarrow> None | Some style \<Rightarrow> map_of style prop_name)"

text \<open>
  A sequence of calls of add_declaration on the same dict, as the loops of lines 451 to
  456 and 458 to 464 make them; a call is \<open>(prop_name, prop_values, weight, element,
  pseudo_type)\<close>.
\<close>

type_synonym ('e, 'v) add_call = "string \<times> 'v \<times> weight \<times> 'e element_ref \<times> pseudo_type"

fun add_declarations ::
  "('e, 'v) cascaded_styles \<Rightarrow> ('e, 'v) add_call list \<Rightarrow> ('e, 'v) cascaded_styles" where
  "add_declarations cs [] = cs"
| "add_declarations cs ((prop_name, prop_values, weight, el, pseudo_type) # calls) =
     add_declarations (add_declaration cs prop_name prop_values weight el pseudo_type) calls"

section \<open>Selectors and match_selectors\<close>

text \<open>
  What \<open>cssselect.parse(selector.selectorText)\<close> returns: a \<open>Pseudo\<close> node (a selector
  that ends with a pseudo-class or pseudo-element, with the selector it wraps and its
  identifier) or any other node. \<open>cssselect.CSSSelector\<close> is the external library's:
  every node carries what it does on that node, \<open>None\<close> when it raises ExpressionError,
  else the elements the compiled callable returns on \<open>document.dom\<close>.
\<close>

datatype 'e parsed_selector =
    Pseudo (wrapped: "'e parsed_selector") (ident: string) (CSSSelector: "'e list option")
  | Other (CSSSelector: "'e list option")

text \<open>A cssutils Selector: its text, its specificity and what cssselect parses it to.\<close>

datatype 'e selector =
  Selector (selectorText: string) (selector_specificity: "int \<times> int \<times> int \<times> int")
    (cssselect_parse: "'e parsed_selector")

text \<open>
  The result is cached on the selector object in the source; the cache only saves the
  second computation of the same value.
\<close>

definition selector_to_xpath :: "'e selector \<Rightarrow> error + (pseudo_type \<times> 'e list)" where
  "selector_to_xpath selector =
     (let parsed = cssselect_parse selector;
          (pseudo_type, parsed_selector) =
            (case parsed of
               Pseudo inner identifier c \<Rightarrow>
                 if identifier \<in> set PSEUDO_ELEMENTS then (Some identifier, inner)
                 else (None, parsed)
             | Other c \<Rightarrow> (None, parsed))
      in case CSSSelector parsed_selector of
           None \<Rightarrow> Inl ExpressionError
         | Some selector_callable \<Rightarrow> Inr (pseudo_type, selector_callable))"

definition selector_warning :: "string \<Rightarrow> string" where
  "selector_warning text = ''Unsupported selector '' @ text"

text \<open>
  The first loop of match_selectors: \<open>Inr (Inl w)\<close> is the early \<open>return\<close> after the
  warning \<open>w\<close>, \<open>Inr (Inr selectors)\<close> the list the loop built.
\<close>

fun compile_selectors ::
  "'e selector list \<Rightarrow> error + (string + ('e list \<times> pseudo_type \<times> (int \<times> int \<times> int \<times> int)) list)" where
  "compile_selectors [] = Inr (Inr [])"
| "compile_selectors (selector # rest) =
     (case selector_to_xpath selector of
        Inl e \<Rightarrow>
          if e = ExpressionError then Inr (Inl (selector_warning (selectorText selector)))
          else Inl e
      | Inr (pseudo_type, selector_callable) \<Rightarrow>
          (case compile_selectors rest of
             Inr (Inr selectors) \<Rightarrow>
               Inr (Inr ((selector_callable, pseudo_type, selector_specificity selector) # selectors))
           | other \<Rightarrow> other))"

definition match_selectors :: "'e selector list \<Rightarrow> error + (string list \<times> 'e matched list)" where
  "match_selectors selector_list =
     (case compile_selectors selector_list of
        Inl e \<Rightarrow> Inl e
      | Inr (Inl warning) \<Rightarrow> Inr ([warning], [])
      | Inr (Inr selectors) \<Rightarrow>
          Inr ([], concat (map (\<lambda>(selector_callable, pseudo_type, specificity).
                     map (\<lambda>el. (Element el, pseudo_type, Tuple specificity)) selector_callable)
                   selectors)))"

section \<open>Rules, stylesheets and declarations\<close>

datatype media_list = MediaList (mediaText: string) (queries: "string list")

definition evaluate_media_query :: "media_list \<Rightarrow> string \<Rightarrow> bool" where
  "evaluate_media_query query_list medium =
     (mediaText query_list = ''all'' \<or> (\<exists>query \<in> set (queries query_list). query = medium))"

datatype 'v css_declaration =
  Declaration (decl_name: string) (propertyValue: 'v) (priority: string)

text \<open>
  A rule by its type. An \<open>@import\<close> rule holds the media and the rules of its
  \<open>styleSheet\<close>, an \<open>@media\<close> rule its own; \<open>OTHER_RULE\<close> stands for the types
  the cascade passes over (\<open>@font-face\<close>, \<open>@namespace\<close>, \<open>@variables\<close>).
\<close>

datatype ('e, 'v) rule =
    CHARSET_RULE
  | COMMENT
  | IMPORT_RULE media_list "('e, 'v) rule list"
  | MEDIA_RULE media_list "('e, 'v) rule list"
  | STYLE_RULE "'e selector list" "'v css_declaration list"
  | PAGE_RULE string "'v css_declaration list"
  | OTHER_RULE

datatype ('e, 'v) stylesheet =
  StyleSheet (media: media_list) (cssRules: "('e, 'v) rule list")

fun effective_rule :: "('e, 'v) rule \<Rightarrow> string \<Rightarrow> ('e, 'v) rule list"
  and effective_rules_in :: "('e, 'v) rule list \<Rightarrow> string \<Rightarrow> ('e, 'v) rule list" where
  "effective_rule CHARSET_RULE medium = []"
| "effective_rule COMMENT medium = []"
| "effective_rule (IMPORT_RULE m rules) medium =
     (if evaluate_media_query m medium then effective_rules_in rules medium else [])"
| "effective_rule (MEDIA_RULE m rules) medium =
     (if evaluate_media_query m medium then effective_rules_in rules medium else [])"
| "effective_rule (STYLE_RULE selector_list block) medium = [STYLE_RULE selector_list block]"
| "effective_rule (PAGE_RULE selector block) medium = [PAGE_RULE selector block]"
| "effective_rule OTHER_RULE medium = [OTHER_RULE]"
| "effective_rules_in [] medium = []"
| "effective_rules_in (r # rules) medium = effective_rule r medium @ effective_rules_in rules medium"

definition effective_rules :: "('e, 'v) stylesheet \<Rightarrow> string \<Rightarrow> ('e, 'v) rule list" where
  "effective_rules sheet medium =
     (if \<not> evaluate_media_query (media sheet) medium then []
      else effective_rules_in (cssRules sheet) medium)"


section \<open>External collaborators and the document\<close>

text \<open>
  The modules \<open>properties\<close>, \<open>validation\<close>, \<open>computed_values\<close> and \<open>values\<close> and
  cssutils' \<open>parseStyle\<close> are not part of this module; what it uses of them is a
  parameter. \<open>INITIAL_VALUES\<close> is a dict (one entry per property), \<open>INHERITED\<close> a set
  of property names. \<open>compute_values\<close> changes the style it is given in place: here it
  returns the changed style. A style (StyleDict) maps property names to values.
\<close>

type_synonym 'v style_dict = "string \<rightharpoonup> 'v"

record ('e, 'v) externals =
  validate_and_expand :: "string \<Rightarrow> 'v \<Rightarrow> (string \<times> 'v) list"
  parseStyle :: "string \<Rightarrow> 'v css_declaration list"
  INITIAL_VALUES :: "(string \<times> 'v) list"
  INHERITED :: "string list"
  get_single_keyword :: "'v \<Rightarrow> string option"
  compute_values ::
    "'e element_ref \<Rightarrow> pseudo_type \<Rightarrow> 'v style_dict \<Rightarrow> 'v style_dict option \<Rightarrow> 'v style_dict"

text \<open>
  What the module reads of a document: the elements \<open>document.dom.iter()\<close> gives, in
  tree order; \<open>element.getparent()\<close> (\<open>None\<close> for the root); \<open>element.get('style')\<close>;
  and the stylesheets \<open>find_stylesheets(document)\<close> yields (whose parsing is the CSS
  parser's).
\<close>

record ('e, 'v) document =
  dom_iter :: "'e list"
  getparent :: "'e \<Rightarrow> 'e option"
  get_style :: "'e \<Rightarrow> string option"
  find_stylesheets :: "('e, 'v) stylesheet list"

definition find_style_attributes ::
  "('e, 'v) externals \<Rightarrow> ('e, 'v) document \<Rightarrow> ('e \<times> 'v css_declaration list) list" where
  "find_style_attributes ext doc =
     concat (map (\<lambda>el. case get_style doc el of
                          None \<Rightarrow> []
                        | Some style_attribute \<Rightarrow>
                            if truthy style_attribute then [(el, parseStyle ext style_attribute)]
                            else [])
               (dom_iter doc))"

definition effective_declarations ::
  "('e, 'v) externals \<Rightarrow> 'v css_declaration list \<Rightarrow> (string \<times> 'v \<times> string) list" where
  "effective_declarations ext declaration_block =
     concat (map (\<lambda>d. map (\<lambda>(name, values). (name, values, priority d))
                          (validate_and_expand ext (decl_name d) (propertyValue d)))
               declaration_block)"

section \<open>The cascade of get_all_computed_styles\<close>

text \<open>A \<open>for\<close> loop whose body may raise: the first exception ends the loop.\<close>

fun for_each :: "('a \<Rightarrow> 's \<Rightarrow> error + 's) \<Rightarrow> 'a list \<Rightarrow> 's \<Rightarrow> error + 's" where
  "for_each body [] s = Inr s"
| "for_each body (x # xs) s =
     (case body x s of Inl e \<Rightarrow> Inl e | Inr s' \<Rightarrow> for_each body xs s')"

text \<open>
  The state of the first half of get_all_computed_styles: the dict \<open>cascaded_styles\<close>,
  the function's local variable \<open>pseudo_type\<close> (\<open>None\<close> while no assignment has bound
  it) and the warnings logged so far.
\<close>

record ('e, 'v) cascade_state =
  st_cascaded :: "('e, 'v) cascaded_styles"
  st_pseudo_type :: "pseudo_type option"
  st_log :: "string list"

text \<open>Lines 452 to 456: the declarations of one rule, for one matched triple.\<close>

definition add_matched_declaration ::
  "string \<Rightarrow> 'e matched \<Rightarrow> string \<times> 'v \<times> string \<Rightarrow> ('e, 'v) cascade_state
     \<Rightarrow> error + ('e, 'v) cascade_state" where
  "add_matched_declaration origin m d st =
     (case (m, d) of ((el, pseudo_type, specificity), (name, values, importance)) \<Rightarrow>
        (case declaration_precedence origin importance of
           Inl e \<Rightarrow> Inl e
         | Inr precedence \<Rightarrow>
             Inr (st\<lparr>st_cascaded :=
                    add_declaration (st_cascaded st) name values (precedence, specificity)
                      el pseudo_type\<rparr>)))"

text \<open>
  Line 451: the loop header assigns \<open>element, pseudo_type, specificity\<close> for every
  matched triple, before the inner loop runs.
\<close>

definition add_matched ::
  "string \<Rightarrow> (string \<times> 'v \<times> string) list \<Rightarrow> 'e matched \<Rightarrow> ('e, 'v) cascade_state
     \<Rightarrow> error + ('e, 'v) cascade_state" where
  "add_matched origin declarations m st =
     for_each (add_matched_declaration origin m) declarations
       (st\<lparr>st_pseudo_type := Some (fst (snd m))\<rparr>)"

text \<open>
  Lines 433 to 456, one rule. \<open>matched\<close> is a generator: its body runs (logs, raises)
  when the loop of line 451 asks for the first triple, after the declarations were
  expanded.
\<close>

definition cascade_rule ::
  "('e, 'v) externals \<Rightarrow> string \<Rightarrow> ('e, 'v) rule \<Rightarrow> ('e, 'v) cascade_state
     \<Rightarrow> error + ('e, 'v) cascade_state" where
  "cascade_rule ext origin r st =
     (let run = (\<lambda>matched block.
            let declarations = effective_declarations ext block
            in case matched of
                 Inl e \<Rightarrow> Inl e
               | Inr (warnings, triples) \<Rightarrow>
                   for_each (add_matched origin declarations) triples
                     (st\<lparr>st_log := st_log st @ warnings\<rparr>))
      in case r of
           STYLE_RULE selector_list block \<Rightarrow> run (match_selectors selector_list) block
         | PAGE_RULE selector block \<Rightarrow> run (match_page_selector selector) block
         | other \<Rightarrow> Inr st)"

definition cascade_sheet ::
  "('e, 'v) externals \<Rightarrow> string \<Rightarrow> string \<Rightarrow> ('e, 'v) stylesheet \<Rightarrow> ('e, 'v) cascade_state
     \<Rightarrow> error + ('e, 'v) cascade_state" where
  "cascade_sheet ext medium origin sheet st =
     for_each (cascade_rule ext origin) (effective_rules sheet medium) st"

definition cascade_origin ::
  "('e, 'v) externals \<Rightarrow> string \<Rightarrow> ('e, 'v) stylesheet list \<times> string \<Rightarrow> ('e, 'v) cascade_state
     \<Rightarrow> error + ('e, 'v) cascade_state" where
  "cascade_origin ext medium so st =
     (case so of (sheets, origin) \<Rightarrow> for_each (cascade_sheet ext medium origin) sheets st)"

text \<open>
  Lines 458 to 464: the style attributes. The call of line 463 passes the variable
  \<open>pseudo_type\<close>, which this loop never assigns: it holds what the loop of line 451
  left in it, and reading it while it is unbound raises UnboundLocalError, a NameError.
\<close>

definition add_style_attribute_declaration ::
  "'e \<Rightarrow> string \<times> 'v \<times> string \<Rightarrow> ('e, 'v) cascade_state \<Rightarrow> error + ('e, 'v) cascade_state" where
  "add_style_attribute_declaration el d st =
     (case d of (name, values, importance) \<Rightarrow>
        (case declaration_precedence ''author'' importance of
           Inl e \<Rightarrow> Inl e
         | Inr precedence \<Rightarrow>
             (let weight = (precedence, Tuple (1, 0, 0, 0))
              in case st_pseudo_type st of
                   None \<Rightarrow> Inl NameError
                 | Some pseudo_type \<Rightarrow>
                     Inr (st\<lparr>st_cascaded :=
                            add_declaration (st_cascaded st) name values weight
                              (Element el) pseudo_type\<rparr>))))"

definition add_style_attribute ::
  "('e, 'v) externals \<Rightarrow> 'e \<times> 'v css_declaration list \<Rightarrow> ('e, 'v) cascade_state
     \<Rightarrow> error + ('e, 'v) cascade_state" where
  "add_style_attribute ext ed st =
     (case ed of (el, declarations) \<Rightarrow>
        for_each (add_style_attribute_declaration el) (effective_declarations ext declarations) st)"

text \<open>\<open>user_stylesheets or []\<close>: \<open>None\<close> and the empty list both give the empty list.\<close>

definition or_empty :: "'a list option \<Rightarrow> 'a list" where
  "or_empty l = (case l of None \<Rightarrow> [] | Some xs \<Rightarrow> xs)"

text \<open>Lines 412 to 464: everything up to the finished \<open>cascaded_styles\<close>.\<close>

definition cascade ::
  "('e, 'v) externals \<Rightarrow> ('e, 'v) document \<Rightarrow> string \<Rightarrow> ('e, 'v) stylesheet list option
     \<Rightarrow> ('e, 'v) stylesheet list option \<Rightarrow> error + ('e, 'v) cascade_state" where
  "cascade ext doc medium user_stylesheets ua_stylesheets =
     (case for_each (cascade_origin ext medium)
             [(find_stylesheets doc, ''author''),
              (or_empty user_stylesheets, ''user''),
              (or_empty ua_stylesheets, ''user agent'')]
             \<lparr>st_cascaded = [], st_pseudo_type = None, st_log = []\<rparr> of
        Inl e \<Rightarrow> Inl e
      | Inr st \<Rightarrow> for_each (add_style_attribute ext) (find_style_attributes ext doc) st)"

section \<open>Computed styles\<close>

text \<open>
  The part of computed_from_cascaded before the call of compute_values: the loop over
  \<open>INITIAL_VALUES\<close>, one step per property. \<open>parent_style[name]\<close> is a subscript and
  raises KeyError on a missing key.
\<close>

definition specified_value ::
  "('e, 'v) externals \<Rightarrow> 'v style_dict option \<Rightarrow> string \<times> 'v \<Rightarrow> 'v style_dict
     \<Rightarrow> error + 'v style_dict" where
  "specified_value ext parent_style ni style =
     (case ni of (name, initial) \<Rightarrow>
        (let keyword0 = (case style name of
                           None \<Rightarrow> Some (if name \<in> set (INHERITED ext) then ''inherit''
                                          else ''initial'')
                         | Some values \<Rightarrow> get_single_keyword ext values);
             keyword = (if keyword0 = Some ''inherit'' \<and> parent_style = None
                        then Some ''initial'' else keyword0)
         in if keyword = Some ''initial'' then Inr (style(name \<mapsto> initial))
            else if keyword = Some ''inherit'' then
              (case parent_style of
                 None \<Rightarrow> Inl TypeError
               | Some ps \<Rightarrow>
                   (case ps name of None \<Rightarrow> Inl KeyError | Some v \<Rightarrow> Inr (style(name \<mapsto> v))))
            else Inr style))"

definition specified_from_cascaded ::
  "('e, 'v) externals \<Rightarrow> 'v cascaded_style \<Rightarrow> 'v style_dict option \<Rightarrow> error + 'v style_dict" where
  "specified_from_cascaded ext cascaded parent_style =
     for_each (specified_value ext parent_style) (INITIAL_VALUES ext)
       (map_of (map (\<lambda>(name, (v, precedence)). (name, v)) cascaded))"

definition computed_from_cascaded ::
  "('e, 'v) externals \<Rightarrow> 'e element_ref \<Rightarrow> 'v cascaded_style \<Rightarrow> 'v style_dict option
     \<Rightarrow> pseudo_type \<Rightarrow> error + 'v style_dict" where
  "computed_from_cascaded ext el cascaded parent_style pseudo_type =
     (case specified_from_cascaded ext cascaded parent_style of
        Inl e \<Rightarrow> Inl e
      | Inr style \<Rightarrow> Inr (compute_values ext el pseudo_type style parent_style))"

text \<open>Truthiness of a pseudo type: \<open>None\<close> and the empty string are false.\<close>

definition truthy_opt :: "pseudo_type \<Rightarrow> bool" where
  "truthy_opt p = (case p of None \<Rightarrow> False | Some s \<Rightarrow> truthy s)"

type_synonym ('e, 'v) computed_styles = "'e pseudo_key \<rightharpoonup> 'v style_dict"

definition set_computed_styles ::
  "('e, 'v) externals \<Rightarrow> ('e, 'v) document \<Rightarrow> ('e, 'v) cascaded_styles
     \<Rightarrow> 'e element_ref \<Rightarrow> pseudo_type \<Rightarrow> ('e, 'v) computed_styles
     \<Rightarrow> error + ('e, 'v) computed_styles" where
  "set_computed_styles ext doc cascaded_styles el pseudo_type computed_styles =
     (let parent = (case el of
                      AtPage \<Rightarrow> None
                    | Element e \<Rightarrow>
                        if truthy_opt pseudo_type then Some el
                        else map_option Element (getparent doc e));
          parent_style = (case parent of
                            None \<Rightarrow> Inr None
                          | Some p \<Rightarrow>
                              (case computed_styles (p, None) of
                                 None \<Rightarrow> Inl KeyError
                               | Some s \<Rightarrow> Inr (Some s)));
          cascaded = (case map_of cascaded_styles (el, pseudo_type) of
                        None \<Rightarrow> [] | Some c \<Rightarrow> c)
      in case parent_style of
           Inl e \<Rightarrow> Inl e
         | Inr ps \<Rightarrow>
             (case computed_from_cascaded ext el cascaded ps pseudo_type of
                Inl e \<Rightarrow> Inl e
              | Inr style \<Rightarrow> Inr (computed_styles((el, pseudo_type) \<mapsto> style))))"

text \<open>Lines 470 to 501: the three loops that fill \<open>computed_styles\<close>.\<close>

definition compute_all ::
  "('e, 'v) externals \<Rightarrow> ('e, 'v) document \<Rightarrow> ('e, 'v) cascaded_styles
     \<Rightarrow> error + ('e, 'v) computed_styles" where
  "compute_all ext doc cascaded_styles =
     (case for_each (\<lambda>e. set_computed_styles ext doc cascaded_styles (Element e) None)
             (dom_iter doc) Map.empty of
        Inl e \<Rightarrow> Inl e
      | Inr computed1 \<Rightarrow>
          (case for_each (\<lambda>(el, pseudo_type) computed.
                    if truthy_opt pseudo_type \<and> el \<noteq> AtPage
                    then set_computed_styles ext doc cascaded_styles el pseudo_type computed
                    else Inr computed)
                  (map fst cascaded_styles) computed1 of
             Inl e \<Rightarrow> Inl e
           | Inr computed2 \<Rightarrow>
               (case PAGE_PSEUDOCLASS_TARGETS None of
                  None \<Rightarrow> Inl KeyError
                | Some page_types \<Rightarrow>
                    for_each (\<lambda>page_type.
                        set_computed_styles ext doc cascaded_styles AtPage (Some page_type))
                      page_types computed2)))"

definition get_all_computed_styles ::
  "('e, 'v) externals \<Rightarrow> ('e, 'v) document \<Rightarrow> string \<Rightarrow> ('e, 'v) stylesheet list option
     \<Rightarrow> ('e, 'v) stylesheet list option \<Rightarrow> error + ('e, 'v) computed_styles" where
  "get_all_computed_styles ext doc medium user_stylesheets ua_stylesheets =
     (case cascade ext doc medium user_stylesheets ua_stylesheets of
        Inl e \<Rightarrow> Inl e
      | Inr st \<Rightarrow> compute_all ext doc (st_cascaded st))"

section \<open>Auxiliary definitions for the proofs and example inputs\<close>

text \<open>
  What one step of the loop of computed_from_cascaded leaves under \<open>name\<close>, as a
  function of the style before the step (lines 374 to 390 without the exception).
\<close>

definition specified_of ::
  "('e, 'v) externals \<Rightarrow> 'v style_dict option \<Rightarrow> 'v style_dict \<Rightarrow> string \<Rightarrow> 'v \<Rightarrow> 'v option" where
  "specified_of ext parent_style style name initial =
     (let keyword = (case style name of
                       None \<Rightarrow> Some (if name \<in> set (INHERITED ext) then ''inherit'' else ''initial'')
                     | Some values \<Rightarrow> get_single_keyword ext values)
      in if keyword = Some ''initial'' then Some initial
         else if keyword = Some ''inherit'' then
           (case parent_style of None \<Rightarrow> Some initial | Some ps \<Rightarrow> ps name)
         else style name)"

text \<open>
  Example collaborators: two properties, of which 'color' is inherited; a validator that
  accepts every declaration as it is; a value calculator that changes nothing. Values
  are strings and elements are numbered.
\<close>

definition demo_externals :: "(nat, string) externals" where
  "demo_externals =
     \<lparr>validate_and_expand = (\<lambda>name v. [(name, v)]),
      parseStyle = (\<lambda>s. if s = ''color: red'' then [Declaration ''color'' ''red'' ''''] else []),
      INITIAL_VALUES = [(''color'', ''black''), (''display'', ''inline'')],
      INHERITED = [''color''],
      get_single_keyword = (\<lambda>v. if v = ''inherit'' \<or> v = ''initial'' then Some v else None),
      compute_values = (\<lambda>el pseudo_type style parent_style. style)\<rparr>"

text \<open>
  The stylesheet \<^verbatim>\<open>p:before { content: x }\<close>, whose selector matches element 0, and a
  document of the one element 0 with the attribute \<^verbatim>\<open>style="color: red"\<close>.
\<close>

definition before_sheet :: "(nat, string) stylesheet" where
  "before_sheet =
     StyleSheet (MediaList ''all'' [])
       [STYLE_RULE [Selector ''p:before'' (0, 0, 0, 2) (Pseudo (Other (Some [0])) ''before'' None)]
          [Declaration ''content'' ''x'' '''']]"

definition styled_document :: "(nat, string) stylesheet list \<Rightarrow> (nat, string) document" where
  "styled_document sheets =
     \<lparr>dom_iter = [0], getparent = (\<lambda>e. None), get_style = (\<lambda>e. Some ''color: red''),
      find_stylesheets = sheets\<rparr>"

text \<open>
  The stylesheet \<^verbatim>\<open>@page :blank { color: red } @page { color: blue }\<close> and a document
  of the one element 0 with no style attribute.
\<close>

definition blank_page_sheet :: "(nat, string) stylesheet" where
  "blank_page_sheet =
     StyleSheet (MediaList ''all'' [])
       [PAGE_RULE '':blank'' [Declaration ''color'' ''red'' ''''],
        PAGE_RULE '''' [Declaration ''color'' ''blue'' '''']]"

definition plain_document :: "(nat, string) stylesheet list \<Rightarrow> (nat, string) document" where
  "plain_document sheets =
     \<lparr>dom_iter = [0], getparent = (\<lambda>e. None), get_style = (\<lambda>e. None),
      find_stylesheets = sheets\<rparr>"

text \<open>
  The page types, in the order of \<open>PAGE_PSEUDOCLASS_TARGETS[None]\<close>.
\<close>

definition page_types :: "string list" where
  "page_types = [''left'', ''right'', ''first_left'', ''first_right'']"

text \<open>
  The test of line 489 on a key of \<open>cascaded_styles\<close>.
\<close>

definition pseudo_element_key :: "'e pseudo_key \<Rightarrow> bool" where
  "pseudo_element_key k = (truthy_opt (snd k) \<and> fst k \<noteq> AtPage)"

text \<open>
  Invariants of the cascade: no key has the empty string as its pseudo type and no
  stored style is empty; the variable \<open>pseudo_type\<close> never holds the empty string.
\<close>

definition cascaded_ok :: "('e, 'v) cascaded_styles \<Rightarrow> bool" where
  "cascaded_ok cs = (\<forall>(k, style) \<in> set cs. snd k \<noteq> Some [] \<and> style \<noteq> [])"

definition state_ok :: "('e, 'v) cascade_state \<Rightarrow> bool" where
  "state_ok st = (cascaded_ok (st_cascaded st) \<and> st_pseudo_type st \<noteq> Some (Some []))"

text \<open>Every element that is a key of the cascaded styles is an element of the document.\<close>

definition keys_in :: "'e set \<Rightarrow> ('e, 'v) cascade_state \<Rightarrow> bool" where
  "keys_in D st = (\<forall>e pt. (Element e, pt) \<in> fst ` set (st_cascaded st) \<longrightarrow> e \<in> D)"

text \<open>The rules that the cascade can go through without an exception.\<close>

definition rule_ok :: "'e set \<Rightarrow> ('e, 'v) rule \<Rightarrow> bool" where
  "rule_ok D r =
     (case r of
        STYLE_RULE selector_list block \<Rightarrow>
          (\<forall>s \<in> set selector_list. \<forall>pt els. selector_to_xpath s = Inr (pt, els) \<longrightarrow> set els \<subseteq> D)
      | PAGE_RULE selector block \<Rightarrow> selector \<in> {'''', '':left'', '':right'', '':first''}
      | other \<Rightarrow> True)"

definition sheets_ok :: "'e set \<Rightarrow> string \<Rightarrow> ('e, 'v) stylesheet list \<Rightarrow> bool" where
  "sheets_ok D medium sheets =
     (\<forall>sheet \<in> set sheets. \<forall>r \<in> set (effective_rules sheet medium). rule_ok D r)"

text \<open>A style with a value for every property, and computed styles that are all so.\<close>

definition complete :: "('e, 'v) externals \<Rightarrow> 'v style_dict \<Rightarrow> bool" where
  "complete ext style = (fst ` set (INITIAL_VALUES ext) \<subseteq> dom style)"

definition all_complete :: "('e, 'v) externals \<Rightarrow> ('e, 'v) computed_styles \<Rightarrow> bool" where
  "all_complete ext computed = (\<forall>k style. computed k = Some style \<longrightarrow> complete ext style)"

section \<open>The box tree and its two normalization passes\<close>

text \<open>
  Modelled from the spec: the modules \<open>formatting_structure.boxes\<close> and
  \<open>formatting_structure.build\<close> are not among the sources (only their tests are), so
  the boxes and the passes \<open>inline_in_block\<close> and \<open>block_in_inline\<close> follow sections
  3, 4.5 and 4.6 of the specification. A box is a tagged variant; a text box holds its
  text, a replaced box has no children, and the six other variants own an ordered child
  sequence: they share the constructor \<open>ParentBox\<close>, with the variant as a tag. Every
  box carries an element reference (an anonymous box that of the box it was made for, as
  the tests serialize it).
\<close>

datatype box_type = BlockBox | InlineBox | InlineBlockBox | LineBox | AnonymousBlockBox | PageBox

datatype 'e box =
    TextBox 'e string
  | ReplacedBox 'e
  | ParentBox box_type 'e "'e box list"

text \<open>
  Modelled from the spec: the block-level boxes are the block boxes and the anonymous
  block boxes; every other box is inline-level where runs of siblings are formed.
\<close>

fun block_level :: "'e box \<Rightarrow> bool" where
  "block_level (ParentBox t e cs) = (t = BlockBox \<or> t = AnonymousBlockBox)"
| "block_level b = False"

fun is_line :: "'e box \<Rightarrow> bool" where
  "is_line (ParentBox t e cs) = (t = LineBox)"
| "is_line b = False"

text \<open>
  Modelled from the spec: the block containers are the boxes whose children must be
  uniformly block-level or uniformly inline-level: block boxes, anonymous block boxes
  and inline-block boxes.
\<close>

definition block_container :: "box_type \<Rightarrow> bool" where
  "block_container t = (t = BlockBox \<or> t = AnonymousBlockBox \<or> t = InlineBlockBox)"

text \<open>
  Modelled from the spec: "a synthesized AnonymousBlockBox containing one synthesized
  LineBox holding the run".
\<close>

definition anonymous_line :: "'e \<Rightarrow> 'e box list \<Rightarrow> 'e box" where
  "anonymous_line e run = ParentBox AnonymousBlockBox e [ParentBox LineBox e run]"

text \<open>
  Modelled from the spec (4.5): "partition children into maximal runs of consecutive
  inline-level siblings; wrap each run [...], interleaved in original order with the
  remaining block-level children". \<open>run\<close> is the run collected so far.
\<close>

fun wrap_runs :: "'e \<Rightarrow> 'e box list \<Rightarrow> 'e box list \<Rightarrow> 'e box list" where
  "wrap_runs e run [] = (if run = [] then [] else [anonymous_line e run])"
| "wrap_runs e run (c # cs) =
     (if block_level c
      then (if run = [] then [] else [anonymous_line e run]) @ c # wrap_runs e [] cs
      else wrap_runs e (run @ [c]) cs)"

text \<open>
  Modelled from the spec (4.5): the children of one block container. A single LineBox
  child is the already-terminal structure and is left alone; children that are uniformly
  inline-level get a single LineBox; otherwise the runs of inline-level children are
  wrapped, which changes nothing when there is no inline-level child.
\<close>

definition wrap_inlines :: "'e \<Rightarrow> 'e box list \<Rightarrow> 'e box list" where
  "wrap_inlines e cs =
     (if length cs = 1 \<and> is_line (hd cs) then cs
      else if cs \<noteq> [] \<and> (\<forall>c \<in> set cs. \<not> block_level c) then [ParentBox LineBox e cs]
      else wrap_runs e [] cs)"

text \<open>Modelled from the spec (4.5): the bottom-up recursive pass.\<close>

fun inline_in_block :: "'e box \<Rightarrow> 'e box" where
  "inline_in_block (ParentBox t e cs) =
     ParentBox t e (if block_container t then wrap_inlines e (map inline_in_block cs)
                    else map inline_in_block cs)"
| "inline_in_block b = b"

text \<open>
  Modelled from the spec (4.6): the content of a line, scanned left to right, is a first
  fragment of inline content followed by the blocks found, each with the fragment of
  inline content after it.
\<close>

type_synonym 'e pieces = "'e box list \<times> ('e box \<times> 'e box list) list"

text \<open>
  Modelled from the spec (4.6): "split every enclosing inline ancestor into a 'before'
  fragment and an 'after' fragment"; "an inline ancestor emptied on either side is still
  emitted as an empty inline box". \<open>graft e inner after\<close> puts the pieces \<open>inner\<close> of the
  content of an inline box of element \<open>e\<close> back into copies of that box, before the pieces
  \<open>after\<close> of its right siblings.
\<close>

fun graft_rest ::
  "'e \<Rightarrow> 'e box \<Rightarrow> 'e box list \<Rightarrow> ('e box \<times> 'e box list) list \<Rightarrow> 'e pieces
     \<Rightarrow> ('e box \<times> 'e box list) list" where
  "graft_rest e b g [] (f0, rest) = (b, ParentBox InlineBox e g # f0) # rest"
| "graft_rest e b g ((b', g') # others) after =
     (b, [ParentBox InlineBox e g]) # graft_rest e b' g' others after"

fun graft :: "'e \<Rightarrow> 'e pieces \<Rightarrow> 'e pieces \<Rightarrow> 'e pieces" where
  "graft e (g0, []) (f0, rest) = (ParentBox InlineBox e g0 # f0, rest)"
| "graft e (g0, (b, g) # others) after = ([ParentBox InlineBox e g0], graft_rest e b g others after)"

text \<open>
  Modelled from the spec (4.6): what replaces a LineBox in its container. A line with no
  block in its inline content stays one LineBox. Otherwise the content before each block
  is emitted, if non-empty, as an AnonymousBlockBox/LineBox pair, the block as a direct
  sibling, and the content after the last block as a pair of its own even when empty.
\<close>

fun emit_rest :: "'e \<Rightarrow> ('e box \<times> 'e box list) list \<Rightarrow> 'e box list" where
  "emit_rest e [] = []"
| "emit_rest e [(b, f)] = [b, anonymous_line e f]"
| "emit_rest e ((b, f) # others) =
     b # (if f = [] then [] else [anonymous_line e f]) @ emit_rest e others"

fun emit :: "'e \<Rightarrow> 'e pieces \<Rightarrow> 'e box list" where
  "emit e (f0, []) = [ParentBox LineBox e f0]"
| "emit e (f0, rest) = (if f0 = [] then [] else [anonymous_line e f0]) @ emit_rest e rest"

text \<open>
  Modelled from the spec (4.6): the pass. \<open>expand_all\<close> rewrites the children of a box,
  replacing every LineBox by what \<open>emit\<close> gives for the pieces of its content;
  \<open>split_line\<close> scans inline content for blocks "at any depth" of the inline boxes; the
  blocks found, and the boxes inside the line that are not inline boxes, are themselves
  rewritten by the pass.
\<close>

fun block_in_inline :: "'e box \<Rightarrow> 'e box"
  and expand_all :: "'e box list \<Rightarrow> 'e box list"
  and split_line :: "'e box list \<Rightarrow> 'e pieces"
where
  "block_in_inline (ParentBox t e cs) = ParentBox t e (expand_all cs)"
| "block_in_inline b = b"
| "expand_all [] = []"
| "expand_all (ParentBox LineBox e ks # cs) = emit e (split_line ks) @ expand_all cs"
| "expand_all (c # cs) = block_in_inline c # expand_all cs"
| "split_line [] = ([], [])"
| "split_line (ParentBox t e ks # cs) =
     (if t = BlockBox \<or> t = AnonymousBlockBox
      then ([], (block_in_inline (ParentBox t e ks), fst (split_line cs)) # snd (split_line cs))
      else if t = InlineBox then graft e (split_line ks) (split_line cs)
      else (block_in_inline (ParentBox t e ks) # fst (split_line cs), snd (split_line cs)))"
| "split_line (TextBox e text # cs) = (TextBox e text # fst (split_line cs), snd (split_line cs))"
| "split_line (ReplacedBox e # cs) = (ReplacedBox e # fst (split_line cs), snd (split_line cs))"

text \<open>
  The pieces of a line that the pass leaves as they are: no fragment holds a block any
  others, and the blocks are block-level boxes that the pass does not change.
\<close>

fun clean_pieces :: "'e pieces \<Rightarrow> bool" where
  "clean_pieces (f0, rest) =
     (split_line f0 = (f0, [])
      \<and> (\<forall>(b, f) \<in> set rest. block_level b \<and> block_in_inline b = b \<and> split_line f = (f, [])))"

text \<open>
  The trees of \<open>test_inline_in_block\<close> and \<open>test_block_in_inline\<close> in
  \<open>tests/test_boxes.py\<close>, with the html and body boxes that the tests unwrap: the box
  tree of \<^verbatim>\<open><div>Hello, <em>World</em>!\n<p>Lipsum.</p></div>\<close> and what the test expects
  of inline_in_block on it; the tree the second test expects after inline_in_block, and
  the one it expects after block_in_inline.
\<close>

definition hello_tree :: "string box" where
  "hello_tree =
     ParentBox BlockBox ''html'' [ParentBox BlockBox ''body'' [
       ParentBox BlockBox ''div'' [
         TextBox ''div'' ''Hello, '',
         ParentBox InlineBox ''em'' [TextBox ''em'' ''World''],
         TextBox ''div'' ''!\<newline>'',
         ParentBox BlockBox ''p'' [TextBox ''p'' ''Lipsum.'']]]]"

definition hello_expected :: "string box" where
  "hello_expected =
     ParentBox BlockBox ''html'' [ParentBox BlockBox ''body'' [
       ParentBox BlockBox ''div'' [
         ParentBox AnonymousBlockBox ''div'' [
           ParentBox LineBox ''div'' [
             TextBox ''div'' ''Hello, '',
             ParentBox InlineBox ''em'' [TextBox ''em'' ''World''],
             TextBox ''div'' ''!\<newline>'']],
         ParentBox BlockBox ''p'' [
           ParentBox LineBox ''p'' [TextBox ''p'' ''Lipsum.'']]]]]"

definition lorem_lines :: "string box" where
  "lorem_lines =
     ParentBox BlockBox ''html'' [ParentBox BlockBox ''body'' [
       ParentBox LineBox ''body'' [
         ParentBox InlineBlockBox ''p'' [
           ParentBox LineBox ''p'' [
             TextBox ''p'' ''Lorem '',
             ParentBox InlineBox ''em'' [
               TextBox ''em'' ''ipsum '',
               ParentBox InlineBox ''strong'' [
                 TextBox ''strong'' ''dolor '',
                 ParentBox BlockBox ''span'' [
                   ParentBox LineBox ''span'' [TextBox ''span'' ''sit'']],
                 TextBox ''strong'' ''\<newline>    '',
                 ParentBox BlockBox ''span'' [
                   ParentBox LineBox ''span'' [TextBox ''span'' ''amet,'']]],
               ParentBox BlockBox ''span'' [
                 ParentBox LineBox ''span'' [
                   ParentBox InlineBox ''em'' [
                     TextBox ''em'' ''consectetur'',
                     ParentBox BlockBox ''div'' []]]]]]]]]]"

definition lorem_expected :: "string box" where
  "lorem_expected =
     ParentBox BlockBox ''html'' [ParentBox BlockBox ''body'' [
       ParentBox LineBox ''body'' [
         ParentBox InlineBlockBox ''p'' [
           ParentBox AnonymousBlockBox ''p'' [
             ParentBox LineBox ''p'' [
               TextBox ''p'' ''Lorem '',
               ParentBox InlineBox ''em'' [
                 TextBox ''em'' ''ipsum '',
                 ParentBox InlineBox ''strong'' [TextBox ''strong'' ''dolor '']]]],
           ParentBox BlockBox ''span'' [
             ParentBox LineBox ''span'' [TextBox ''span'' ''sit'']],
           ParentBox AnonymousBlockBox ''p'' [
             ParentBox LineBox ''p'' [
               ParentBox InlineBox ''em'' [
                 ParentBox InlineBox ''strong'' [TextBox ''strong'' ''\<newline>    '']]]],
           ParentBox BlockBox ''span'' [
             ParentBox LineBox ''span'' [TextBox ''span'' ''amet,'']],
           ParentBox AnonymousBlockBox ''p'' [
             ParentBox LineBox ''p'' [
               ParentBox InlineBox ''em'' [ParentBox InlineBox ''strong'' []]]],
           ParentBox BlockBox ''span'' [
             ParentBox AnonymousBlockBox ''span'' [
               ParentBox LineBox ''span'' [
                 ParentBox InlineBox ''em'' [TextBox ''em'' ''consectetur'']]],
             ParentBox BlockBox ''div'' [],
             ParentBox AnonymousBlockBox ''span'' [
               ParentBox LineBox ''span'' [ParentBox InlineBox ''em'' []]]],
           ParentBox AnonymousBlockBox ''p'' [
             ParentBox LineBox ''p'' [ParentBox InlineBox ''em'' []]]]]]]"

section \<open>Properties of declaration_precedence and match_page_selector\<close>

text \<open>
  C6: declaration_precedence maps (origin, importance) to the five levels: 'user agent'
  gives 1 whatever the importance, a non-important 'user' declaration 2, a non-important
  'author' declaration 3, an important 'author' declaration 4 and an important 'user'
  declaration 5.
\<close>

theorem declaration_precedence_scale:
  "declaration_precedence ''user agent'' importance = Inr (Some 1)
   \<and> declaration_precedence ''user'' importance = Inr (Some (if truthy importance then 5 else 2))
   \<and> declaration_precedence ''author'' importance = Inr (Some (if truthy importance then 4 else 3))"
  by (simp add: declaration_precedence_def)

text \<open>
  C4 (the code at an unknown origin): the call with the origin 'printer' raises nothing
  and returns None, for an important and for a non-important declaration.
\<close>

theorem declaration_precedence_unknown_origin:
  "declaration_precedence ''printer'' '''' = Inr None
   \<and> declaration_precedence ''printer'' ''important'' = Inr None"
  by (simp add: declaration_precedence_def py_assert_def truthy_def)

text \<open>
  C7: for the four supported page selectors match_page_selector yields the triples of
  the table, in the table's order, and logs nothing: no pseudo-class gives the four page
  types with specificity 0, ':left' gives left and first_left with specificity 1,
  ':right' gives right and first_right with specificity 1, ':first' gives first_left and
  first_right with specificity 10.
\<close>

theorem match_page_selector_table:
  "match_page_selector '''' =
     Inr ([], [(AtPage, Some ''left'', Number 0), (AtPage, Some ''right'', Number 0),
               (AtPage, Some ''first_left'', Number 0), (AtPage, Some ''first_right'', Number 0)])
   \<and> match_page_selector '':left'' =
     Inr ([], [(AtPage, Some ''left'', Number 1), (AtPage, Some ''first_left'', Number 1)])
   \<and> match_page_selector '':right'' =
     Inr ([], [(AtPage, Some ''right'', Number 1), (AtPage, Some ''first_right'', Number 1)])
   \<and> match_page_selector '':first'' =
     Inr ([], [(AtPage, Some ''first_left'', Number 10), (AtPage, Some ''first_right'', Number 10)])"
  by (simp add: match_page_selector_def truthy_def PAGE_PSEUDOCLASS_TARGETS_def
      PAGE_PSEUDOCLASS_SPECIFICITY_def)

text \<open>
  For style rules the rule is discarded as a whole: when selector_to_xpath raises
  ExpressionError on one selector of the list, match_selectors yields no triple, logs
  one warning and raises nothing.
\<close>

lemma selector_to_xpath_error:
  "selector_to_xpath selector = Inl e \<Longrightarrow> e = ExpressionError"
  by (auto simp: selector_to_xpath_def Let_def
      split: parsed_selector.splits if_splits option.splits)

lemma compile_selectors_unsupported:
  assumes "\<exists>selector \<in> set selector_list. selector_to_xpath selector = Inl ExpressionError"
  shows "\<exists>warning. compile_selectors selector_list = Inr (Inl warning)"
  using assms
proof (induction selector_list)
  case Nil
  then show ?case by simp
next
  case (Cons selector rest)
  show ?case
  proof (cases "selector_to_xpath selector")
    case (Inl e)
    with selector_to_xpath_error [OF Inl] show ?thesis by simp
  next
    case (Inr r)
    with Cons.prems have "\<exists>s \<in> set rest. selector_to_xpath s = Inl ExpressionError" by auto
    from Cons.IH [OF this] obtain warning where "compile_selectors rest = Inr (Inl warning)" ..
    with Inr show ?thesis by (cases r) simp
  qed
qed

lemma match_selectors_discards_rule:
  assumes "\<exists>selector \<in> set selector_list. selector_to_xpath selector = Inl ExpressionError"
  shows "\<exists>warning. match_selectors selector_list = Inr ([warning], [])"
proof -
  from compile_selectors_unsupported [OF assms] obtain warning where
    "compile_selectors selector_list = Inr (Inl warning)" ..
  then show ?thesis by (simp add: match_selectors_def)
qed

text \<open>
  C3 (the code at an unsupported page selector): iterating match_page_selector(':blank')
  raises KeyError, and the branch that logs the warning is never reached; so
  get_all_computed_styles, on a document whose stylesheet has the rule
  \<^verbatim>\<open>@page :blank { color: red }\<close> before a supported one, ends with that KeyError
  instead of going on with the remaining rules.
\<close>

theorem match_page_selector_unsupported_raises:
  "match_page_selector '':blank'' = Inl KeyError
   \<and> (case get_all_computed_styles demo_externals (plain_document [blank_page_sheet])
              ''print'' None None of
         Inl e \<Rightarrow> e = KeyError
       | Inr computed \<Rightarrow> False)"
proof (rule conjI)
  show "match_page_selector '':blank'' = Inl KeyError"
    by (simp add: match_page_selector_def truthy_def PAGE_PSEUDOCLASS_SPECIFICITY_def)
  show "case get_all_computed_styles demo_externals (plain_document [blank_page_sheet])
              ''print'' None None of
         Inl e \<Rightarrow> e = KeyError
       | Inr computed \<Rightarrow> False"
    by code_simp
qed

section \<open>Properties of add_declaration\<close>

lemma stored_add_declaration:
  "stored (add_declaration cs p v w e pt) (e, pt) p =
     (case stored cs (e, pt) p of
        None \<Rightarrow> Some (v, w)
      | Some (v0, w0) \<Rightarrow> if w0 \<le> w then Some (v, w) else Some (v0, w0))"
  by (auto simp: stored_def add_declaration_def Let_def update_conv' split: option.splits)

text \<open>
  A call changes nothing but the property it names under the key it names; a stored
  pair stays through calls that are lighter on its own slot, and what is stored stays
  within a bound that every call on the slot respects.
\<close>

lemma stored_add_declaration_other:
  assumes "k \<noteq> (e, pt) \<or> q \<noteq> p"
  shows "stored (add_declaration cs p v w e pt) k q = stored cs k q"
proof (cases "k = (e, pt)")
  case False
  then show ?thesis by (simp add: stored_def add_declaration_def Let_def update_conv')
next
  case True
  with assms have "q \<noteq> p" by simp
  with True show ?thesis
    by (auto simp: stored_def add_declaration_def Let_def update_conv' split: option.splits)
qed

lemma stored_add_declaration_keeps:
  fixes w w1 :: weight
  assumes "stored cs k q = Some (v1, w1)" and "(e, pt) = k \<and> p = q \<longrightarrow> w < w1"
  shows "stored (add_declaration cs p v w e pt) k q = Some (v1, w1)"
proof (cases "(e, pt) = k \<and> p = q")
  case True
  with assms(2) have "\<not> w1 \<le> w" by auto
  with True assms(1) show ?thesis by (auto simp: stored_add_declaration)
next
  case False
  then have "k \<noteq> (e, pt) \<or> q \<noteq> p" by auto
  then have "stored (add_declaration cs p v w e pt) k q = stored cs k q"
    by (rule stored_add_declaration_other)
  with assms(1) show ?thesis by simp
qed

lemma stored_add_declaration_bound:
  fixes w w1 :: weight
  assumes "\<forall>v0 w0. stored cs k q = Some (v0, w0) \<longrightarrow> w0 \<le> w1"
      and "(e, pt) = k \<and> p = q \<longrightarrow> w \<le> w1"
  shows "\<forall>v0 w0. stored (add_declaration cs p v w e pt) k q = Some (v0, w0) \<longrightarrow> w0 \<le> w1"
proof (cases "(e, pt) = k \<and> p = q")
  case True
  with assms(2) have w: "w \<le> w1" by simp
  show ?thesis
  proof (cases "stored cs k q")
    case None
    with True w show ?thesis by (auto simp: stored_add_declaration)
  next
    case (Some vw0)
    obtain v0 w0 where vw0: "vw0 = (v0, w0)" by (cases vw0)
    with Some assms(1) have "w0 \<le> w1" by blast
    with Some vw0 True w show ?thesis by (auto simp: stored_add_declaration split: if_splits)
  qed
next
  case False
  then have "k \<noteq> (e, pt) \<or> q \<noteq> p" by auto
  then have "stored (add_declaration cs p v w e pt) k q = stored cs k q"
    by (rule stored_add_declaration_other)
  with assms(1) show ?thesis by simp
qed

lemma stored_add_declarations_keeps:
  fixes w1 :: weight
  assumes "stored cs k q = Some (v1, w1)"
      and "\<forall>(q', v', w', e', pt') \<in> set calls. (e', pt') = k \<and> q' = q \<longrightarrow> w' < w1"
  shows "stored (add_declarations cs calls) k q = Some (v1, w1)"
  using assms
proof (induction calls arbitrary: cs)
  case Nil
  then show ?case by simp
next
  case (Cons c calls)
  obtain q' v' w' e' pt' where c: "c = (q', v', w', e', pt')" by (cases c)
  with Cons.prems(2) have "(e', pt') = k \<and> q' = q \<longrightarrow> w' < w1" by auto
  from stored_add_declaration_keeps [OF Cons.prems(1) this]
  have s: "stored (add_declaration cs q' v' w' e' pt') k q = Some (v1, w1)" .
  from Cons.prems(2) have "\<forall>(q', v', w', e', pt') \<in> set calls. (e', pt') = k \<and> q' = q \<longrightarrow> w' < w1"
    by auto
  from Cons.IH [OF s this] c show ?case by simp
qed

lemma stored_add_declarations_bound:
  fixes w1 :: weight
  assumes "\<forall>v0 w0. stored cs k q = Some (v0, w0) \<longrightarrow> w0 \<le> w1"
      and "\<forall>(q', v', w', e', pt') \<in> set calls. (e', pt') = k \<and> q' = q \<longrightarrow> w' \<le> w1"
  shows "\<forall>v0 w0. stored (add_declarations cs calls) k q = Some (v0, w0) \<longrightarrow> w0 \<le> w1"
  using assms
proof (induction calls arbitrary: cs)
  case Nil
  then show ?case by simp
next
  case (Cons c calls)
  obtain q' v' w' e' pt' where c: "c = (q', v', w', e', pt')" by (cases c)
  with Cons.prems(2) have "(e', pt') = k \<and> q' = q \<longrightarrow> w' \<le> w1" by auto
  from stored_add_declaration_bound [OF Cons.prems(1) this]
  have s: "\<forall>v0 w0. stored (add_declaration cs q' v' w' e' pt') k q = Some (v0, w0) \<longrightarrow> w0 \<le> w1" .
  from Cons.prems(2) have "\<forall>(q', v', w', e', pt') \<in> set calls. (e', pt') = k \<and> q' = q \<longrightarrow> w' \<le> w1"
    by auto
  from Cons.IH [OF s this] c show ?case by simp
qed

lemma stored_add_declaration_wins:
  fixes w w1 :: weight
  assumes "\<forall>v0 w0. stored cs (e, pt) p = Some (v0, w0) \<longrightarrow> w0 \<le> w"
  shows "stored (add_declaration cs p v w e pt) (e, pt) p = Some (v, w)"
proof (cases "stored cs (e, pt) p")
  case None
  then show ?thesis by (simp add: stored_add_declaration)
next
  case (Some vw0)
  obtain v0 w0 where vw0: "vw0 = (v0, w0)" by (cases vw0)
  with Some assms have "w0 \<le> w" by blast
  with Some vw0 show ?thesis by (simp add: stored_add_declaration)
qed

text \<open>
  C1: add_declaration stores the new (values, weight) for the property under the key
  exactly when nothing is stored yet or the stored weight is at most the new one, and
  keeps the stored pair otherwise; it changes no other property and no other key. So of
  two declarations for one property and key, added to a store that holds nothing heavier
  than the heavier of the two, with any calls in between (for other keys, for other
  properties, or lighter ones for the same property and key), the one with the strictly
  higher weight is stored whichever is added first, and of two with equal weights the
  one added later is stored.
\<close>

theorem add_declaration_winner:
  fixes w1 w2 :: weight
  shows "stored (add_declaration cs p v w e pt) (e, pt) p =
     (case stored cs (e, pt) p of
        None \<Rightarrow> Some (v, w)
      | Some (v0, w0) \<Rightarrow> if w0 \<le> w then Some (v, w) else Some (v0, w0))
   \<and> (k \<noteq> (e, pt) \<or> q \<noteq> p \<longrightarrow> stored (add_declaration cs p v w e pt) k q = stored cs k q)
   \<and> ((\<forall>v0 w0. stored cs (e, pt) p = Some (v0, w0) \<longrightarrow> w0 \<le> w1) \<longrightarrow>
       (\<forall>(q', v', w', e', pt') \<in> set between. (e', pt') = (e, pt) \<and> q' = p \<longrightarrow> w' < w1) \<longrightarrow>
       w2 < w1 \<longrightarrow>
        stored (add_declaration (add_declarations (add_declaration cs p v1 w1 e pt) between)
                  p v2 w2 e pt) (e, pt) p = Some (v1, w1)
      \<and> stored (add_declaration (add_declarations (add_declaration cs p v2 w2 e pt) between)
                  p v1 w1 e pt) (e, pt) p = Some (v1, w1))
   \<and> ((\<forall>v0 w0. stored cs (e, pt) p = Some (v0, w0) \<longrightarrow> w0 \<le> w1) \<longrightarrow>
       (\<forall>(q', v', w', e', pt') \<in> set between. (e', pt') = (e, pt) \<and> q' = p \<longrightarrow> w' \<le> w1) \<longrightarrow>
       w2 = w1 \<longrightarrow>
        stored (add_declaration (add_declarations (add_declaration cs p v1 w1 e pt) between)
                  p v2 w2 e pt) (e, pt) p = Some (v2, w2))"
proof (intro conjI impI)
  show "stored (add_declaration cs p v w e pt) (e, pt) p =
     (case stored cs (e, pt) p of
        None \<Rightarrow> Some (v, w)
      | Some (v0, w0) \<Rightarrow> if w0 \<le> w then Some (v, w) else Some (v0, w0))"
    by (rule stored_add_declaration)
next
  assume "k \<noteq> (e, pt) \<or> q \<noteq> p"
  then show "stored (add_declaration cs p v w e pt) k q = stored cs k q"
    by (rule stored_add_declaration_other)
next
  assume le: "\<forall>v0 w0. stored cs (e, pt) p = Some (v0, w0) \<longrightarrow> w0 \<le> w1"
    and b: "\<forall>(q', v', w', e', pt') \<in> set between. (e', pt') = (e, pt) \<and> q' = p \<longrightarrow> w' < w1"
    and lt: "w2 < w1"
  have s1: "stored (add_declaration cs p v1 w1 e pt) (e, pt) p = Some (v1, w1)"
    using le by (rule stored_add_declaration_wins)
  have m1: "stored (add_declarations (add_declaration cs p v1 w1 e pt) between) (e, pt) p
      = Some (v1, w1)"
    using s1 b by (rule stored_add_declarations_keeps)
  from lt have "(e, pt) = (e, pt) \<and> p = p \<longrightarrow> w2 < w1" by simp
  from stored_add_declaration_keeps [OF m1 this]
  show "stored (add_declaration (add_declarations (add_declaration cs p v1 w1 e pt) between)
                  p v2 w2 e pt) (e, pt) p = Some (v1, w1)" .
  from lt have "(e, pt) = (e, pt) \<and> p = p \<longrightarrow> w2 \<le> w1" by simp
  from stored_add_declaration_bound [OF le this]
  have s2: "\<forall>v0 w0. stored (add_declaration cs p v2 w2 e pt) (e, pt) p = Some (v0, w0) \<longrightarrow> w0 \<le> w1" .
  from b have b': "\<forall>(q', v', w', e', pt') \<in> set between. (e', pt') = (e, pt) \<and> q' = p \<longrightarrow> w' \<le> w1"
    by (auto intro: less_imp_le)
  from stored_add_declarations_bound [OF s2 b']
  show "stored (add_declaration (add_declarations (add_declaration cs p v2 w2 e pt) between)
                  p v1 w1 e pt) (e, pt) p = Some (v1, w1)"
    by (rule stored_add_declaration_wins)
next
  assume le: "\<forall>v0 w0. stored cs (e, pt) p = Some (v0, w0) \<longrightarrow> w0 \<le> w1"
    and b: "\<forall>(q', v', w', e', pt') \<in> set between. (e', pt') = (e, pt) \<and> q' = p \<longrightarrow> w' \<le> w1"
    and eq: "w2 = w1"
  have "(e, pt) = (e, pt) \<and> p = p \<longrightarrow> w1 \<le> w1" by simp
  from stored_add_declaration_bound [OF le this]
  have s1: "\<forall>v0 w0. stored (add_declaration cs p v1 w1 e pt) (e, pt) p = Some (v0, w0) \<longrightarrow> w0 \<le> w1" .
  from stored_add_declarations_bound [OF s1 b] eq
  show "stored (add_declaration (add_declarations (add_declaration cs p v1 w1 e pt) between)
                  p v2 w2 e pt) (e, pt) p = Some (v2, w2)"
    by (intro stored_add_declaration_wins) simp
qed

text \<open>
  The theorem at two declarations of 'color' on element 0, with the specificities of a
  class selector and of a type selector, in both orders and at equal weights; in between
  come a declaration for element 1, one for another property of element 0 and a
  user-agent declaration of 'color' on element 0. Last, a call for element 1 leaves the
  'color' of element 0 as it was.
\<close>

theorem add_declaration_winner_witness:
  "stored (add_declaration
       (add_declarations
          (add_declaration [] ''color'' ''red'' (Some 3, Tuple (0, 0, 1, 0)) (Element (0::nat)) None)
          [(''color'', ''green'', (Some 3, Tuple (0, 0, 0, 1)), Element 1, None),
           (''display'', ''block'', (Some 4, Tuple (0, 1, 0, 0)), Element 0, None),
           (''color'', ''grey'', (Some 1, Tuple (0, 0, 0, 1)), Element 0, None)])
       ''color'' ''blue'' (Some 3, Tuple (0, 0, 0, 1)) (Element 0) None) (Element 0, None) ''color''
     = Some (''red'', (Some 3, Tuple (0, 0, 1, 0)))
   \<and> stored (add_declaration
       (add_declarations
          (add_declaration [] ''color'' ''blue'' (Some 3, Tuple (0, 0, 0, 1)) (Element (0::nat)) None)
          [(''color'', ''green'', (Some 3, Tuple (0, 0, 0, 1)), Element 1, None),
           (''display'', ''block'', (Some 4, Tuple (0, 1, 0, 0)), Element 0, None),
           (''color'', ''grey'', (Some 1, Tuple (0, 0, 0, 1)), Element 0, None)])
       ''color'' ''red'' (Some 3, Tuple (0, 0, 1, 0)) (Element 0) None) (Element 0, None) ''color''
     = Some (''red'', (Some 3, Tuple (0, 0, 1, 0)))
   \<and> stored (add_declaration
       (add_declarations
          (add_declaration [] ''color'' ''red'' (Some 3, Tuple (0, 0, 1, 0)) (Element (0::nat)) None)
          [(''color'', ''green'', (Some 3, Tuple (0, 0, 0, 1)), Element 1, None),
           (''display'', ''block'', (Some 4, Tuple (0, 1, 0, 0)), Element 0, None),
           (''color'', ''grey'', (Some 1, Tuple (0, 0, 0, 1)), Element 0, None)])
       ''color'' ''blue'' (Some 3, Tuple (0, 0, 1, 0)) (Element 0) None) (Element 0, None) ''color''
     = Some (''blue'', (Some 3, Tuple (0, 0, 1, 0)))
   \<and> stored (add_declaration
         [((Element (0::nat), None), [(''color'', (''red'', (Some 3, Tuple (0, 0, 1, 0))))])]
         ''color'' ''green'' (Some 3, Tuple (0, 0, 0, 1)) (Element 1) None) (Element 0, None) ''color''
     = Some (''red'', (Some 3, Tuple (0, 0, 1, 0)))"
proof -
  let ?hi = "(Some (3::int), Tuple (0, 0, 1, 0))"
  let ?lo = "(Some (3::int), Tuple (0, 0, 0, 1))"
  let ?between = "[(''color'', ''green'', ?lo, Element (1::nat), None),
                   (''display'', ''block'', (Some (4::int), Tuple (0, 1, 0, 0)), Element 0, None),
                   (''color'', ''grey'', (Some (1::int), Tuple (0, 0, 0, 1)), Element 0, None)]"
  let ?red = "[((Element (0::nat), None), [(''color'', (''red'', ?hi))])]"
  have e: "\<forall>v0 w0. stored ([] :: (nat, string) cascaded_styles) (Element 0, None) ''color'' = Some (v0, w0)
        \<longrightarrow> w0 \<le> ?hi"
    by (simp add: stored_def)
  have b: "\<forall>(q', v', w', e', pt') \<in> set ?between.
             (e', pt') = (Element 0, None) \<and> q' = ''color'' \<longrightarrow> w' < ?hi"
    by simp
  have b': "\<forall>(q', v', w', e', pt') \<in> set ?between.
             (e', pt') = (Element 0, None) \<and> q' = ''color'' \<longrightarrow> w' \<le> ?hi"
    by simp
  have lt: "?lo < ?hi"
    by (simp add: less_specificity_def)
  have other: "(Element (0::nat), None :: pseudo_type) \<noteq> (Element 1, None) \<or> ''color'' \<noteq> ''color''"
    by simp
  from add_declaration_winner [of "[]" "''color''" "''red''" ?hi "Element (0::nat)" None
      "(Element 0, None)" "''color''" ?hi ?between ?lo "''red''" "''blue''"] e b lt
  have a1: "stored (add_declaration (add_declarations (add_declaration [] ''color'' ''red'' ?hi (Element (0::nat)) None)
       ?between) ''color'' ''blue'' ?lo (Element 0) None) (Element 0, None) ''color'' = Some (''red'', ?hi)"
    and a2: "stored (add_declaration (add_declarations (add_declaration [] ''color'' ''blue'' ?lo (Element (0::nat)) None)
       ?between) ''color'' ''red'' ?hi (Element 0) None) (Element 0, None) ''color'' = Some (''red'', ?hi)"
    by blast+
  from add_declaration_winner [of "[]" "''color''" "''red''" ?hi "Element (0::nat)" None
      "(Element 0, None)" "''color''" ?hi ?between ?hi "''red''" "''blue''"] e b'
  have a3: "stored (add_declaration (add_declarations (add_declaration [] ''color'' ''red'' ?hi (Element (0::nat)) None)
       ?between) ''color'' ''blue'' ?hi (Element 0) None) (Element 0, None) ''color'' = Some (''blue'', ?hi)"
    by blast
  from add_declaration_winner [of ?red "''color''" "''green''" ?lo "Element (1::nat)" None
      "(Element 0, None)" "''color''" ?hi "[]" ?lo "''red''" "''blue''"] other
  have "stored (add_declaration ?red ''color'' ''green'' ?lo (Element 1) None) (Element 0, None) ''color''
      = stored ?red (Element 0, None) ''color''"
    by blast
  then have a4: "stored (add_declaration ?red ''color'' ''green'' ?lo (Element 1) None)
      (Element 0, None) ''color'' = Some (''red'', ?hi)"
    by (simp add: stored_def)
  from a1 a2 a3 a4 show ?thesis by blast
qed

section \<open>Properties of computed_from_cascaded\<close>

lemma specified_of_cong:
  "s1 name = s2 name \<Longrightarrow>
     specified_of ext parent_style s1 name initial = specified_of ext parent_style s2 name initial"
  by (simp add: specified_of_def Let_def)

lemma specified_value_step:
  assumes "\<forall>ps. parent_style = Some ps \<longrightarrow> name \<in> dom ps"
  shows "specified_value ext parent_style (name, initial) style =
           Inr (style(name := specified_of ext parent_style style name initial))"
proof (cases parent_style)
  case None
  then show ?thesis
    by (auto simp: specified_value_def specified_of_def Let_def fun_upd_idem_iff split: option.splits)
next
  case (Some ps)
  with assms obtain v where "ps name = Some v" by auto
  with Some show ?thesis
    by (auto simp: specified_value_def specified_of_def Let_def fun_upd_idem_iff split: option.splits)
qed

lemma specified_loop:
  assumes "distinct (map fst ivs)"
      and "\<forall>ps. parent_style = Some ps \<longrightarrow> fst ` set ivs \<subseteq> dom ps"
  shows "\<exists>style'. for_each (specified_value ext parent_style) ivs style = Inr style'
           \<and> (\<forall>m. m \<notin> fst ` set ivs \<longrightarrow> style' m = style m)
           \<and> (\<forall>(name, initial) \<in> set ivs.
                 style' name = specified_of ext parent_style style name initial)"
  using assms
proof (induction ivs arbitrary: style)
  case Nil
  then show ?case by simp
next
  case (Cons ni ivs)
  obtain name initial where ni: "ni = (name, initial)" by (cases ni)
  let ?s1 = "style(name := specified_of ext parent_style style name initial)"
  from Cons.prems(2) ni have "\<forall>ps. parent_style = Some ps \<longrightarrow> name \<in> dom ps" by auto
  then have step: "specified_value ext parent_style (name, initial) style = Inr ?s1"
    by (rule specified_value_step)
  from Cons.prems have d: "distinct (map fst ivs)"
    and p: "\<forall>ps. parent_style = Some ps \<longrightarrow> fst ` set ivs \<subseteq> dom ps"
    and fresh: "name \<notin> fst ` set ivs"
    using ni by auto
  from Cons.IH [OF d p, of ?s1] obtain style' where
    run: "for_each (specified_value ext parent_style) ivs ?s1 = Inr style'"
    and frame: "\<forall>m. m \<notin> fst ` set ivs \<longrightarrow> style' m = ?s1 m"
    and vals: "\<forall>(n, i) \<in> set ivs. style' n = specified_of ext parent_style ?s1 n i"
    by blast
  have same: "specified_of ext parent_style ?s1 n i = specified_of ext parent_style style n i"
    if "(n, i) \<in> set ivs" for n i
  proof -
    from that fresh have "n \<noteq> name" by force
    then show ?thesis by (intro specified_of_cong) simp
  qed
  have "for_each (specified_value ext parent_style) (ni # ivs) style = Inr style'"
    using step run ni by simp
  moreover have "\<forall>m. m \<notin> fst ` set (ni # ivs) \<longrightarrow> style' m = style m"
    using frame ni by auto
  moreover have "\<forall>(n, i) \<in> set (ni # ivs). style' n = specified_of ext parent_style style n i"
    using vals same frame fresh ni by auto
  ultimately show ?case by blast
qed

lemma specified_of_defined:
  assumes "\<forall>ps. parent_style = Some ps \<longrightarrow> name \<in> dom ps"
  shows "specified_of ext parent_style style name initial \<noteq> None"
  using assms by (cases parent_style) (auto simp: specified_of_def Let_def split: option.splits)

lemma map_of_cascaded_values:
  "map_of (map (\<lambda>(name, (v, precedence)). (name, v)) cascaded) name =
     map_option fst (map_of cascaded name)"
  by (induction cascaded) auto

text \<open>
  C5: computed_from_cascaded returns, and its style has a value for every property of
  INITIAL_VALUES, given that the parent's style (when there is one) has them all and
  that compute_values removes no property. Before compute_values runs, every property
  holds its specified value: the keyword of a property with no cascaded value is
  'inherit' when the property is in INHERITED and 'initial' otherwise, that of a
  cascaded value is what get_single_keyword gives; 'initial' gives the initial value,
  'inherit' the parent's computed value, or the initial value when there is no parent
  style; any other value is kept as cascaded.
\<close>

theorem computed_from_cascaded_complete:
  assumes dict: "distinct (map fst (INITIAL_VALUES ext))"
      and parent: "\<forall>ps. parent_style = Some ps \<longrightarrow> fst ` set (INITIAL_VALUES ext) \<subseteq> dom ps"
      and keeps: "\<forall>style. dom style \<subseteq> dom (compute_values ext el pseudo_type style parent_style)"
  shows "\<exists>specified.
           specified_from_cascaded ext cascaded parent_style = Inr specified
         \<and> computed_from_cascaded ext el cascaded parent_style pseudo_type =
             Inr (compute_values ext el pseudo_type specified parent_style)
         \<and> fst ` set (INITIAL_VALUES ext) \<subseteq> dom specified
         \<and> fst ` set (INITIAL_VALUES ext)
             \<subseteq> dom (compute_values ext el pseudo_type specified parent_style)
         \<and> (\<forall>(name, initial) \<in> set (INITIAL_VALUES ext).
              (let cascaded_value = map_option fst (map_of cascaded name);
                   keyword = (case cascaded_value of
                                None \<Rightarrow> Some (if name \<in> set (INHERITED ext) then ''inherit''
                                               else ''initial'')
                              | Some values \<Rightarrow> get_single_keyword ext values)
               in specified name =
                    (if keyword = Some ''initial'' then Some initial
                     else if keyword = Some ''inherit'' then
                       (case parent_style of None \<Rightarrow> Some initial | Some ps \<Rightarrow> ps name)
                     else cascaded_value)))"
proof -
  let ?s0 = "map_of (map (\<lambda>(name, (v, precedence)). (name, v)) cascaded)"
  from specified_loop [OF dict parent, of ext ?s0] obtain specified where
    run: "for_each (specified_value ext parent_style) (INITIAL_VALUES ext) ?s0 = Inr specified"
    and vals: "\<forall>(name, initial) \<in> set (INITIAL_VALUES ext).
                 specified name = specified_of ext parent_style ?s0 name initial"
    by blast
  have spec: "specified_from_cascaded ext cascaded parent_style = Inr specified"
    using run by (simp add: specified_from_cascaded_def)
  then have comp: "computed_from_cascaded ext el cascaded parent_style pseudo_type =
      Inr (compute_values ext el pseudo_type specified parent_style)"
    by (simp add: computed_from_cascaded_def)
  have full: "fst ` set (INITIAL_VALUES ext) \<subseteq> dom specified"
  proof
    fix name assume "name \<in> fst ` set (INITIAL_VALUES ext)"
    then obtain initial where ni: "(name, initial) \<in> set (INITIAL_VALUES ext)" by auto
    with parent have "\<forall>ps. parent_style = Some ps \<longrightarrow> name \<in> dom ps" by force
    then have "specified_of ext parent_style ?s0 name initial \<noteq> None"
      by (rule specified_of_defined)
    with vals ni show "name \<in> dom specified" by force
  qed
  with keeps have full': "fst ` set (INITIAL_VALUES ext)
      \<subseteq> dom (compute_values ext el pseudo_type specified parent_style)"
    by blast
  have res: "\<forall>(name, initial) \<in> set (INITIAL_VALUES ext).
              (let cascaded_value = map_option fst (map_of cascaded name);
                   keyword = (case cascaded_value of
                                None \<Rightarrow> Some (if name \<in> set (INHERITED ext) then ''inherit''
                                               else ''initial'')
                              | Some values \<Rightarrow> get_single_keyword ext values)
               in specified name =
                    (if keyword = Some ''initial'' then Some initial
                     else if keyword = Some ''inherit'' then
                       (case parent_style of None \<Rightarrow> Some initial | Some ps \<Rightarrow> ps name)
                     else cascaded_value))"
    using vals by (auto simp: specified_of_def Let_def map_of_cascaded_values)
  from spec comp full full' res show ?thesis by blast
qed

text \<open>
  The theorem at a child whose parent's computed style has 'color' blue and 'display'
  block, with the one cascaded value 'display: initial': 'color' is inherited and
  'display' gets its initial value.
\<close>

theorem computed_from_cascaded_complete_witness:
  "\<exists>style. computed_from_cascaded demo_externals (Element (1::nat))
       [(''display'', (''initial'', (Some 3, Tuple (0, 0, 0, 1))))]
       (Some [''color'' \<mapsto> ''blue'', ''display'' \<mapsto> ''block'']) None = Inr style
     \<and> style ''color'' = Some ''blue'' \<and> style ''display'' = Some ''inline''"
proof -
  let ?ps = "[''color'' \<mapsto> ''blue'', ''display'' \<mapsto> ''block'']"
  let ?c = "[(''display'', (''initial'', (Some (3::int), Tuple (0, 0, 0, 1))))] :: string cascaded_style"
  have dict: "distinct (map fst (INITIAL_VALUES demo_externals))"
    by (simp add: demo_externals_def)
  have parent: "\<forall>ps. Some ?ps = Some ps \<longrightarrow> fst ` set (INITIAL_VALUES demo_externals) \<subseteq> dom ps"
    by (simp add: demo_externals_def)
  have keeps: "\<forall>style. dom style
      \<subseteq> dom (compute_values demo_externals (Element (1::nat)) None style (Some ?ps))"
    by (simp add: demo_externals_def)
  from computed_from_cascaded_complete [OF dict parent keeps, of ?c]
  obtain specified where
    comp: "computed_from_cascaded demo_externals (Element (1::nat)) ?c (Some ?ps) None =
             Inr (compute_values demo_externals (Element 1) None specified (Some ?ps))"
    and res: "\<forall>(name, initial) \<in> set (INITIAL_VALUES demo_externals).
              (let cascaded_value = map_option fst (map_of ?c name);
                   keyword = (case cascaded_value of
                                None \<Rightarrow> Some (if name \<in> set (INHERITED demo_externals) then ''inherit''
                                               else ''initial'')
                              | Some values \<Rightarrow> get_single_keyword demo_externals values)
               in specified name =
                    (if keyword = Some ''initial'' then Some initial
                     else if keyword = Some ''inherit'' then
                       (case Some ?ps of None \<Rightarrow> Some initial | Some ps \<Rightarrow> ps name)
                     else cascaded_value))"
    by blast
  from res have "specified ''color'' = Some ''blue''" and "specified ''display'' = Some ''inline''"
    by (simp_all add: demo_externals_def)
  with comp show ?thesis by (simp add: demo_externals_def)
qed

section \<open>The style attributes in the cascade\<close>

text \<open>
  C2 (the code at two documents with a style attribute): after the rule
  \<^verbatim>\<open>p:before { content: x }\<close> matched element 0, the declaration of the attribute
  \<^verbatim>\<open>style="color: red"\<close> of element 0 is stored under the key (element 0, 'before'),
  and nothing under (element 0, None); with no stylesheet at all, the style attribute
  makes the function raise NameError.
\<close>

theorem style_attribute_key:
  "cascade demo_externals (styled_document [before_sheet]) ''print'' None None =
     Inr \<lparr>st_cascaded =
            [((Element 0, Some ''before''),
              [(''content'', (''x'', (Some 3, Tuple (0, 0, 0, 2)))),
               (''color'', (''red'', (Some 3, Tuple (1, 0, 0, 0))))])],
          st_pseudo_type = Some (Some ''before''), st_log = []\<rparr>
   \<and> cascade demo_externals (styled_document []) ''print'' None None = Inl NameError"
  by code_simp

section \<open>Loops that may raise\<close>

lemma for_each_filter:
  "for_each (\<lambda>x s. if c x then body x s else Inr s) xs s = for_each body (filter c xs) s"
  by (induction xs arbitrary: s) (auto split: sum.splits)

lemma for_each_invariant:
  assumes "for_each body xs s = Inr s'" and "P s"
      and "\<And>x s s'. x \<in> set xs \<Longrightarrow> P s \<Longrightarrow> body x s = Inr s' \<Longrightarrow> P s'"
  shows "P s'"
  using assms
proof (induction xs arbitrary: s)
  case Nil
  then show ?case by simp
next
  case (Cons x xs)
  from Cons.prems(1) obtain s1 where b: "body x s = Inr s1" and r: "for_each body xs s1 = Inr s'"
    by (auto split: sum.splits)
  from Cons.prems(3) [OF _ Cons.prems(2) b] have p1: "P s1" by simp
  show ?case
  proof (rule Cons.IH [OF r p1])
    fix y t t' assume "y \<in> set xs" and "P t" and "body y t = Inr t'"
    then show "P t'" using Cons.prems(3) [of y t t'] by simp
  qed
qed

lemma for_each_assign:
  assumes "for_each body xs s = Inr s'"
      and "\<And>x s s'. x \<in> set xs \<Longrightarrow> body x s = Inr s' \<Longrightarrow> \<exists>v. s' = s(key x \<mapsto> v)"
  shows "dom s' = dom s \<union> key ` set xs \<and> (\<forall>k. k \<notin> key ` set xs \<longrightarrow> s' k = s k)"
  using assms
proof (induction xs arbitrary: s)
  case Nil
  then show ?case by simp
next
  case (Cons x xs)
  from Cons.prems(1) obtain s1 where b: "body x s = Inr s1" and r: "for_each body xs s1 = Inr s'"
    by (auto split: sum.splits)
  have "x \<in> set (x # xs)" by simp
  from Cons.prems(2) [OF this b] obtain v where s1: "s1 = s(key x \<mapsto> v)" by blast
  have ih: "dom s' = dom s1 \<union> key ` set xs \<and> (\<forall>k. k \<notin> key ` set xs \<longrightarrow> s' k = s1 k)"
  proof (rule Cons.IH [OF r])
    fix y t t' assume y: "y \<in> set xs" and b: "body y t = Inr t'"
    from y have "y \<in> set (x # xs)" by simp
    from Cons.prems(2) [OF this b] show "\<exists>v. t' = t(key y \<mapsto> v)" .
  qed
  from ih s1 show ?case by auto
qed

section \<open>The keys of the computed styles\<close>

lemma set_computed_styles_assigns:
  assumes "set_computed_styles ext doc cascaded_styles el pseudo_type computed = Inr computed'"
  shows "\<exists>style. computed' = computed((el, pseudo_type) \<mapsto> style)"
  using assms
  by (auto simp: set_computed_styles_def Let_def split: sum.splits option.splits element_ref.splits if_splits)

lemma set_computed_styles_page:
  "set_computed_styles ext doc cascaded_styles AtPage pseudo_type computed =
     (case computed_from_cascaded ext AtPage
             (case map_of cascaded_styles (AtPage, pseudo_type) of None \<Rightarrow> [] | Some c \<Rightarrow> c)
             None pseudo_type of
        Inl e \<Rightarrow> Inl e
      | Inr style \<Rightarrow> Inr (computed((AtPage, pseudo_type) \<mapsto> style)))"
  by (simp add: set_computed_styles_def)

lemma compute_all_dom:
  assumes "compute_all ext doc cascaded_styles = Inr computed"
  shows "dom computed =
           (\<lambda>e. (Element e, None)) ` set (dom_iter doc)
           \<union> set (filter pseudo_element_key (map fst cascaded_styles))
           \<union> (\<lambda>page_type. (AtPage, Some page_type)) ` set page_types"
proof -
  let ?set = "set_computed_styles ext doc cascaded_styles"
  have cond: "(\<lambda>(el, pseudo_type) computed.
                 if truthy_opt pseudo_type \<and> el \<noteq> AtPage then ?set el pseudo_type computed
                 else Inr computed)
              = (\<lambda>k computed. if pseudo_element_key k then ?set (fst k) (snd k) computed
                               else Inr computed)"
    by (auto simp: pseudo_element_key_def fun_eq_iff)
  have pt: "PAGE_PSEUDOCLASS_TARGETS None = Some page_types"
    by (simp add: PAGE_PSEUDOCLASS_TARGETS_def page_types_def)
  from assms obtain c1 c2 where
    l1: "for_each (\<lambda>e. ?set (Element e) None) (dom_iter doc) Map.empty = Inr c1"
    and l2: "for_each (\<lambda>k. ?set (fst k) (snd k))
               (filter pseudo_element_key (map fst cascaded_styles)) c1 = Inr c2"
    and l3: "for_each (\<lambda>page_type. ?set AtPage (Some page_type)) page_types c2 = Inr computed"
    unfolding compute_all_def cond for_each_filter pt
    by (auto split: sum.splits)
  have d1: "dom c1 = (\<lambda>e. (Element e, None)) ` set (dom_iter doc)"
  proof -
    have "dom c1 = dom (Map.empty :: ('a, 'b) computed_styles)
             \<union> (\<lambda>e. (Element e, None)) ` set (dom_iter doc)
           \<and> (\<forall>k. k \<notin> (\<lambda>e. (Element e, None)) ` set (dom_iter doc) \<longrightarrow> c1 k = Map.empty k)"
      by (rule for_each_assign [OF l1]) (rule set_computed_styles_assigns)
    then show ?thesis by simp
  qed
  have d2: "dom c2 = dom c1 \<union> set (filter pseudo_element_key (map fst cascaded_styles))"
  proof -
    have "dom c2 = dom c1 \<union> (\<lambda>k. k) ` set (filter pseudo_element_key (map fst cascaded_styles))
           \<and> (\<forall>k. k \<notin> (\<lambda>k. k) ` set (filter pseudo_element_key (map fst cascaded_styles))
                  \<longrightarrow> c2 k = c1 k)"
    proof (rule for_each_assign [OF l2])
      fix x s s' assume "?set (fst x) (snd x) s = Inr s'"
      from set_computed_styles_assigns [OF this] show "\<exists>v. s' = s(x \<mapsto> v)" by simp
    qed
    then show ?thesis by simp
  qed
  have d3: "dom computed = dom c2 \<union> (\<lambda>page_type. (AtPage, Some page_type)) ` set page_types"
  proof -
    have "dom computed = dom c2 \<union> (\<lambda>page_type. (AtPage, Some page_type)) ` set page_types
           \<and> (\<forall>k. k \<notin> (\<lambda>page_type. (AtPage, Some page_type)) ` set page_types
                  \<longrightarrow> computed k = c2 k)"
      by (rule for_each_assign [OF l3]) (rule set_computed_styles_assigns)
    then show ?thesis by simp
  qed
  from d1 d2 d3 show ?thesis by simp
qed

section \<open>Invariants of the cascade\<close>

lemma set_update_subset: "set (AList.update k v al) \<subseteq> insert (k, v) (set al)"
  by (induction al) auto

lemma update_not_Nil: "AList.update k v al \<noteq> []"
  by (cases al) auto

lemma add_declaration_ok:
  assumes "cascaded_ok cs" and "pt \<noteq> Some []"
  shows "cascaded_ok (add_declaration cs n v w el pt)"
proof -
  let ?style = "case map_of cs (el, pt) of None \<Rightarrow> [] | Some s \<Rightarrow> s"
  let ?replace = "case map_of ?style n of None \<Rightarrow> True | Some (old_values, previous_weight) \<Rightarrow> previous_weight \<le> w"
  let ?new = "if ?replace then AList.update n (v, w) ?style else ?style"
  have new: "?new \<noteq> []"
  proof (cases ?replace)
    case True
    then show ?thesis by (simp add: update_not_Nil)
  next
    case False
    then have "map_of ?style n \<noteq> None" by (auto split: option.splits)
    then have "?style \<noteq> []" by auto
    with False show ?thesis by simp
  qed
  have eq: "add_declaration cs n v w el pt = AList.update (el, pt) ?new cs"
    by (simp add: add_declaration_def Let_def)
  show ?thesis
    unfolding cascaded_ok_def eq
  proof (intro ballI)
    fix x assume "x \<in> set (AList.update (el, pt) ?new cs)"
    with set_update_subset have "x = ((el, pt), ?new) \<or> x \<in> set cs" by fastforce
    then show "case x of (k, style) \<Rightarrow> snd k \<noteq> Some [] \<and> style \<noteq> []"
    proof
      assume "x = ((el, pt), ?new)"
      with new assms(2) show ?thesis by simp
    next
      assume "x \<in> set cs"
      with assms(1) show ?thesis by (auto simp: cascaded_ok_def)
    qed
  qed
qed

lemma selector_to_xpath_pseudo:
  assumes "selector_to_xpath selector = Inr (pt, els)"
  shows "pt \<noteq> Some []"
  using assms
  by (auto simp: selector_to_xpath_def Let_def PSEUDO_ELEMENTS_def
      split: parsed_selector.splits if_splits option.splits)

lemma compile_selectors_pseudo:
  assumes "compile_selectors selector_list = Inr (Inr selectors)"
  shows "\<forall>(els, pt, sp) \<in> set selectors. pt \<noteq> Some []"
  using assms
proof (induction selector_list arbitrary: selectors)
  case Nil
  then show ?case by simp
next
  case (Cons selector rest)
  from Cons.prems obtain pt els tl where
    x: "selector_to_xpath selector = Inr (pt, els)"
    and r: "compile_selectors rest = Inr (Inr tl)"
    and s: "selectors = (els, pt, selector_specificity selector) # tl"
    by (auto split: sum.splits if_splits)
  from selector_to_xpath_pseudo [OF x] Cons.IH [OF r] s show ?case by simp
qed

lemma match_selectors_pseudo:
  assumes "match_selectors selector_list = Inr (warnings, triples)"
  shows "\<forall>m \<in> set triples. fst (snd m) \<noteq> Some []"
proof (cases "compile_selectors selector_list")
  case (Inl e)
  with assms show ?thesis by (simp add: match_selectors_def)
next
  case (Inr r)
  show ?thesis
  proof (cases r)
    case (Inl w)
    with Inr assms show ?thesis by (simp add: match_selectors_def)
  next
    case (Inr selectors)
    with \<open>compile_selectors selector_list = Inr r\<close>
    have c: "compile_selectors selector_list = Inr (Inr selectors)" by simp
    from compile_selectors_pseudo [OF c] assms c show ?thesis
      by (fastforce simp: match_selectors_def)
  qed
qed

lemma match_page_selector_pseudo:
  assumes "match_page_selector selector = Inr (warnings, triples)"
  shows "\<forall>m \<in> set triples. fst (snd m) \<noteq> Some []"
  using assms
  by (auto simp: match_page_selector_def Let_def PAGE_PSEUDOCLASS_TARGETS_def
      split: option.splits if_splits)

lemma add_matched_declaration_ok:
  assumes "state_ok st" and "fst (snd m) \<noteq> Some []"
      and "add_matched_declaration origin m d st = Inr st'"
  shows "state_ok st'"
proof -
  obtain el pt sp where m: "m = (el, pt, sp)" by (cases m)
  obtain name v importance where d: "d = (name, v, importance)" by (cases d)
  from assms(3) m d obtain precedence where
    "st' = st\<lparr>st_cascaded := add_declaration (st_cascaded st) name v (precedence, sp) el pt\<rparr>"
    by (auto simp: add_matched_declaration_def split: sum.splits)
  with assms(1,2) m show ?thesis
    by (simp add: state_ok_def add_declaration_ok)
qed

lemma add_matched_ok:
  assumes "state_ok st" and "fst (snd m) \<noteq> Some []"
      and "add_matched origin declarations m st = Inr st'"
  shows "state_ok st'"
proof -
  from assms(1,2) have "state_ok (st\<lparr>st_pseudo_type := Some (fst (snd m))\<rparr>)"
    by (simp add: state_ok_def)
  with assms(3) show ?thesis
    unfolding add_matched_def
    by (rule for_each_invariant) (rule add_matched_declaration_ok [OF _ assms(2)])
qed

lemma cascade_rule_ok:
  assumes "state_ok st" and "cascade_rule ext origin r st = Inr st'"
  shows "state_ok st'"
proof -
  have run: "state_ok st'"
    if "matched = Inr (warnings, triples)"
      and "\<forall>m \<in> set triples. fst (snd m) \<noteq> Some []"
      and "for_each (add_matched origin declarations) triples
             (st\<lparr>st_log := st_log st @ warnings\<rparr>) = Inr st'"
    for matched :: "error + (string list \<times> 'a matched list)"
      and warnings triples and declarations :: "(string \<times> 'b \<times> string) list"
  proof -
    from assms(1) have "state_ok (st\<lparr>st_log := st_log st @ warnings\<rparr>)"
      by (simp add: state_ok_def)
    with that(3) show ?thesis
    proof (rule for_each_invariant)
      fix m s s' assume "m \<in> set triples" and "state_ok s"
        and "add_matched origin declarations m s = Inr s'"
      with that(2) show "state_ok s'" using add_matched_ok by blast
    qed
  qed
  show ?thesis
  proof (cases r)
    case (STYLE_RULE selector_list block)
    with assms(2) obtain warnings triples where
      m: "match_selectors selector_list = Inr (warnings, triples)"
      and f: "for_each (add_matched origin (effective_declarations ext block)) triples
             (st\<lparr>st_log := st_log st @ warnings\<rparr>) = Inr st'"
      by (auto simp: cascade_rule_def Let_def split: sum.splits)
    from run [OF m match_selectors_pseudo [OF m] f] show ?thesis .
  next
    case (PAGE_RULE selector block)
    with assms(2) obtain warnings triples where
      m: "(match_page_selector selector :: error + (string list \<times> 'a matched list))
            = Inr (warnings, triples)"
      and f: "for_each (add_matched origin (effective_declarations ext block)) triples
             (st\<lparr>st_log := st_log st @ warnings\<rparr>) = Inr st'"
      by (auto simp: cascade_rule_def Let_def split: sum.splits)
    from run [OF m match_page_selector_pseudo [OF m] f] show ?thesis .
  qed (use assms in \<open>auto simp: cascade_rule_def\<close>)
qed

lemma cascade_sheet_ok:
  assumes "state_ok st" and "cascade_sheet ext medium origin sheet st = Inr st'"
  shows "state_ok st'"
  using assms(2,1) unfolding cascade_sheet_def
  by (rule for_each_invariant) (rule cascade_rule_ok)

lemma cascade_origin_ok:
  assumes "state_ok st" and "cascade_origin ext medium so st = Inr st'"
  shows "state_ok st'"
proof -
  obtain sheets origin where so: "so = (sheets, origin)" by (cases so)
  with assms(2) have "for_each (cascade_sheet ext medium origin) sheets st = Inr st'"
    by (simp add: cascade_origin_def)
  from this assms(1) show ?thesis
    by (rule for_each_invariant) (rule cascade_sheet_ok)
qed

lemma add_style_attribute_declaration_ok:
  assumes "state_ok st" and "add_style_attribute_declaration el d st = Inr st'"
  shows "state_ok st'"
proof -
  obtain name v importance where d: "d = (name, v, importance)" by (cases d)
  from assms(2) d obtain precedence pt where
    pt: "st_pseudo_type st = Some pt"
    and st': "st' = st\<lparr>st_cascaded :=
        add_declaration (st_cascaded st) name v (precedence, Tuple (1, 0, 0, 0)) (Element el) pt\<rparr>"
    by (auto simp: add_style_attribute_declaration_def Let_def split: sum.splits option.splits)
  from assms(1) pt have "pt \<noteq> Some []" by (auto simp: state_ok_def)
  with assms(1) st' show ?thesis by (simp add: state_ok_def add_declaration_ok)
qed

lemma add_style_attribute_ok:
  assumes "state_ok st" and "add_style_attribute ext ed st = Inr st'"
  shows "state_ok st'"
proof -
  obtain el declarations where ed: "ed = (el, declarations)" by (cases ed)
  with assms(2) have "for_each (add_style_attribute_declaration el)
      (effective_declarations ext declarations) st = Inr st'"
    by (simp add: add_style_attribute_def)
  from this assms(1) show ?thesis
    by (rule for_each_invariant) (rule add_style_attribute_declaration_ok)
qed

lemma cascade_ok:
  assumes "cascade ext doc medium user_stylesheets ua_stylesheets = Inr st"
  shows "cascaded_ok (st_cascaded st)"
proof -
  let ?init = "\<lparr>st_cascaded = [], st_pseudo_type = None, st_log = []\<rparr> :: ('a, 'b) cascade_state"
  from assms obtain st1 where
    l1: "for_each (cascade_origin ext medium)
           [(find_stylesheets doc, ''author''), (or_empty user_stylesheets, ''user''),
            (or_empty ua_stylesheets, ''user agent'')] ?init = Inr st1"
    and l2: "for_each (add_style_attribute ext) (find_style_attributes ext doc) st1 = Inr st"
    by (auto simp: cascade_def split: sum.splits)
  have "state_ok ?init" by (simp add: state_ok_def cascaded_ok_def)
  with l1 have "state_ok st1"
    by (rule for_each_invariant) (rule cascade_origin_ok)
  with l2 have "state_ok st"
    by (rule for_each_invariant) (rule add_style_attribute_ok)
  then show ?thesis by (simp add: state_ok_def)
qed

lemma pseudo_element_keys:
  assumes "cascaded_ok cs"
  shows "set (filter pseudo_element_key (map fst cs)) =
           {(Element e, Some p) | e p. \<exists>name vw. stored cs (Element e, Some p) name = Some vw}"
proof (intro set_eqI iffI)
  fix k assume "k \<in> set (filter pseudo_element_key (map fst cs))"
  then have k: "k \<in> fst ` set cs" and pk: "pseudo_element_key k" by auto
  from pk obtain e p where ke: "k = (Element e, Some p)"
    by (cases k; cases "fst k"; cases "snd k") (auto simp: pseudo_element_key_def truthy_opt_def)
  from k obtain style where m: "map_of cs k = Some style"
    by (metis domD dom_map_of_conv_image_fst)
  then have "(k, style) \<in> set cs" by (rule map_of_SomeD)
  with assms have "style \<noteq> []" by (auto simp: cascaded_ok_def)
  then obtain name vw rest where "style = (name, vw) # rest" by (cases style) auto
  with m have "stored cs k name = Some vw" by (simp add: stored_def)
  with ke show "k \<in> {(Element e, Some p) | e p. \<exists>name vw. stored cs (Element e, Some p) name = Some vw}"
    by blast
next
  fix k assume "k \<in> {(Element e, Some p) | e p. \<exists>name vw. stored cs (Element e, Some p) name = Some vw}"
  then obtain e p name vw where ke: "k = (Element e, Some p)"
    and s: "stored cs k name = Some vw" by blast
  from s obtain style where m: "map_of cs k = Some style"
    by (auto simp: stored_def split: option.splits)
  then have in_cs: "(k, style) \<in> set cs" by (rule map_of_SomeD)
  with assms ke have "p \<noteq> []" by (auto simp: cascaded_ok_def)
  with ke have "pseudo_element_key k"
    by (simp add: pseudo_element_key_def truthy_opt_def truthy_def)
  moreover from in_cs have "k \<in> fst ` set cs" by force
  ultimately show "k \<in> set (filter pseudo_element_key (map fst cs))" by simp
qed

text \<open>
  C10: when get_all_computed_styles returns, the keys of the returned dict are exactly
  (element, None) for every element of the document, (element, pseudo_type) for the
  keys of element and pseudo type for which the cascade stored at least one
  declaration, and ('@page', page_type) for the four page types.
\<close>

theorem computed_styles_keys:
  assumes "get_all_computed_styles ext doc medium user_stylesheets ua_stylesheets = Inr computed"
  shows "\<exists>st. cascade ext doc medium user_stylesheets ua_stylesheets = Inr st
           \<and> dom computed =
               {(Element e, None) | e. e \<in> set (dom_iter doc)}
               \<union> {(Element e, Some p) | e p.
                    \<exists>name vw. stored (st_cascaded st) (Element e, Some p) name = Some vw}
               \<union> {(AtPage, Some page_type) | page_type.
                    page_type \<in> {''left'', ''right'', ''first_left'', ''first_right''}}"
proof -
  from assms obtain st where
    c: "cascade ext doc medium user_stylesheets ua_stylesheets = Inr st"
    and a: "compute_all ext doc (st_cascaded st) = Inr computed"
    by (auto simp: get_all_computed_styles_def split: sum.splits)
  have "dom computed =
           (\<lambda>e. (Element e, None)) ` set (dom_iter doc)
           \<union> set (filter pseudo_element_key (map fst (st_cascaded st)))
           \<union> (\<lambda>page_type. (AtPage, Some page_type)) ` set page_types"
    by (rule compute_all_dom [OF a])
  also have "(\<lambda>e. (Element e, None)) ` set (dom_iter doc)
      = {(Element e, None) | e. e \<in> set (dom_iter doc)}"
    by auto
  also have "set (filter pseudo_element_key (map fst (st_cascaded st)))
      = {(Element e, Some p) | e p.
           \<exists>name vw. stored (st_cascaded st) (Element e, Some p) name = Some vw}"
    by (rule pseudo_element_keys [OF cascade_ok [OF c]])
  also have "(\<lambda>page_type. (AtPage, Some page_type)) ` set page_types
      = {(AtPage, Some page_type) | page_type.
           page_type \<in> {''left'', ''right'', ''first_left'', ''first_right''}}"
    by (auto simp: page_types_def)
  finally show ?thesis using c by blast
qed

lemma page_loop_values:
  assumes "for_each (\<lambda>page_type. set_computed_styles ext doc cs AtPage (Some page_type))
             pts computed = Inr computed'"
  shows "\<forall>page_type \<in> set pts. \<exists>style.
           computed_from_cascaded ext AtPage
             (case map_of cs (AtPage, Some page_type) of None \<Rightarrow> [] | Some c \<Rightarrow> c)
             None (Some page_type) = Inr style
           \<and> computed' (AtPage, Some page_type) = Some style"
  using assms
proof (induction pts arbitrary: computed)
  case Nil
  then show ?case by simp
next
  case (Cons x pts)
  let ?body = "\<lambda>page_type. set_computed_styles ext doc cs AtPage (Some page_type)"
  from Cons.prems obtain c1 where b: "?body x computed = Inr c1"
    and r: "for_each ?body pts c1 = Inr computed'"
    by (auto split: sum.splits)
  from b obtain style where
    s: "computed_from_cascaded ext AtPage
          (case map_of cs (AtPage, Some x) of None \<Rightarrow> [] | Some c \<Rightarrow> c) None (Some x) = Inr style"
    and c1: "c1 = computed((AtPage, Some x) \<mapsto> style)"
    by (auto simp: set_computed_styles_page split: sum.splits)
  have frame: "\<forall>k. k \<notin> (\<lambda>page_type. (AtPage, Some page_type)) ` set pts \<longrightarrow> computed' k = c1 k"
    using for_each_assign [OF r, of "\<lambda>page_type. (AtPage, Some page_type)"]
      set_computed_styles_assigns by blast
  show ?case
  proof
    fix page_type assume "page_type \<in> set (x # pts)"
    then consider "page_type \<in> set pts" | "page_type = x" "x \<notin> set pts" by auto
    then show "\<exists>style. computed_from_cascaded ext AtPage
             (case map_of cs (AtPage, Some page_type) of None \<Rightarrow> [] | Some c \<Rightarrow> c)
             None (Some page_type) = Inr style
           \<and> computed' (AtPage, Some page_type) = Some style"
    proof cases
      case 1
      with Cons.IH [OF r] show ?thesis by blast
    next
      case 2
      then have "(AtPage, Some x) \<notin> (\<lambda>page_type. (AtPage, Some page_type)) ` set pts" by auto
      with frame have "computed' (AtPage, Some x) = c1 (AtPage, Some x)" by blast
      with c1 s 2 show ?thesis by simp
    qed
  qed
qed

section \<open>The page styles\<close>

lemma specified_page_inherited:
  fixes ext :: "('e, 'v) externals"
  assumes dict: "distinct (map fst (INITIAL_VALUES ext))"
      and run: "specified_from_cascaded ext cascaded None = Inr specified"
      and ni: "(name, initial) \<in> set (INITIAL_VALUES ext)"
      and inh: "name \<in> set (INHERITED ext)"
      and absent: "map_of cascaded name = None"
  shows "specified name = Some initial"
proof -
  let ?s0 = "map_of (map (\<lambda>(name, (v, precedence)). (name, v)) cascaded)"
  have "\<forall>ps. (None :: 'v style_dict option) = Some ps \<longrightarrow> fst ` set (INITIAL_VALUES ext) \<subseteq> dom ps"
    by simp
  from specified_loop [OF dict this, of ext ?s0] run
  have vals: "\<forall>(name, initial) \<in> set (INITIAL_VALUES ext).
                 specified name = specified_of ext None ?s0 name initial"
    by (auto simp: specified_from_cascaded_def)
  from absent have "?s0 name = None" by (simp add: map_of_cascaded_values)
  with inh have "specified_of ext None ?s0 name initial = Some initial"
    by (simp add: specified_of_def)
  with vals ni show ?thesis by auto
qed

text \<open>
  C8: when get_all_computed_styles returns, the keys of the returned dict whose element
  is '@page' are exactly the four of the page types left, right, first_left and
  first_right, whatever the stylesheets hold. Each of these styles is what
  compute_values gives, with no parent style, on the specified values of the page's
  cascaded style, in which every inherited property with no cascaded value holds its
  initial value (INITIAL_VALUES being a dict, with one entry per property).
\<close>

theorem page_styles_present:
  assumes ret: "get_all_computed_styles ext doc medium user_stylesheets ua_stylesheets = Inr computed"
      and dict: "distinct (map fst (INITIAL_VALUES ext))"
  shows "{k \<in> dom computed. fst k = AtPage} =
           {(AtPage, Some ''left''), (AtPage, Some ''right''),
            (AtPage, Some ''first_left''), (AtPage, Some ''first_right'')}
       \<and> card {k \<in> dom computed. fst k = AtPage} = 4
       \<and> (\<exists>st. cascade ext doc medium user_stylesheets ua_stylesheets = Inr st
            \<and> (\<forall>page_type \<in> {''left'', ''right'', ''first_left'', ''first_right''}.
                 \<exists>specified.
                   specified_from_cascaded ext
                     (case map_of (st_cascaded st) (AtPage, Some page_type) of
                        None \<Rightarrow> [] | Some c \<Rightarrow> c) None = Inr specified
                   \<and> computed (AtPage, Some page_type) =
                       Some (compute_values ext AtPage (Some page_type) specified None)
                   \<and> (\<forall>(name, initial) \<in> set (INITIAL_VALUES ext).
                        name \<in> set (INHERITED ext) \<longrightarrow>
                        stored (st_cascaded st) (AtPage, Some page_type) name = None \<longrightarrow>
                        specified name = Some initial)))"
proof -
  from ret obtain st where
    c: "cascade ext doc medium user_stylesheets ua_stylesheets = Inr st"
    and a: "compute_all ext doc (st_cascaded st) = Inr computed"
    by (auto simp: get_all_computed_styles_def split: sum.splits)
  let ?cs = "st_cascaded st"
  have d: "dom computed =
           (\<lambda>e. (Element e, None)) ` set (dom_iter doc)
           \<union> set (filter pseudo_element_key (map fst ?cs))
           \<union> (\<lambda>page_type. (AtPage, Some page_type)) ` set page_types"
    by (rule compute_all_dom [OF a])
  have keys: "{k \<in> dom computed. fst k = AtPage} =
           {(AtPage, Some ''left''), (AtPage, Some ''right''),
            (AtPage, Some ''first_left''), (AtPage, Some ''first_right'')}"
    unfolding d by (auto simp: page_types_def pseudo_element_key_def)
  have four: "card {k \<in> dom computed. fst k = AtPage} = 4"
    unfolding keys by simp
  have pt: "PAGE_PSEUDOCLASS_TARGETS None = Some page_types"
    by (simp add: PAGE_PSEUDOCLASS_TARGETS_def page_types_def)
  from a obtain c2 where
    l3: "for_each (\<lambda>page_type. set_computed_styles ext doc ?cs AtPage (Some page_type))
           page_types c2 = Inr computed"
    unfolding compute_all_def pt by (auto split: sum.splits)
  have pages: "\<forall>page_type \<in> {''left'', ''right'', ''first_left'', ''first_right''}.
                 \<exists>specified.
                   specified_from_cascaded ext
                     (case map_of ?cs (AtPage, Some page_type) of
                        None \<Rightarrow> [] | Some c \<Rightarrow> c) None = Inr specified
                   \<and> computed (AtPage, Some page_type) =
                       Some (compute_values ext AtPage (Some page_type) specified None)
                   \<and> (\<forall>(name, initial) \<in> set (INITIAL_VALUES ext).
                        name \<in> set (INHERITED ext) \<longrightarrow>
                        stored ?cs (AtPage, Some page_type) name = None \<longrightarrow>
                        specified name = Some initial)"
  proof
    fix page_type :: string
    assume "page_type \<in> {''left'', ''right'', ''first_left'', ''first_right''}"
    then have "page_type \<in> set page_types" by (simp add: page_types_def)
    let ?c = "case map_of ?cs (AtPage, Some page_type) of None \<Rightarrow> [] | Some c \<Rightarrow> c"
    from page_loop_values [OF l3] \<open>page_type \<in> set page_types\<close> obtain style where
      s: "computed_from_cascaded ext AtPage ?c None (Some page_type) = Inr style"
      and v: "computed (AtPage, Some page_type) = Some style"
      by blast
    from s obtain specified where
      sp: "specified_from_cascaded ext ?c None = Inr specified"
      and st: "style = compute_values ext AtPage (Some page_type) specified None"
      by (auto simp: computed_from_cascaded_def split: sum.splits)
    have "\<forall>(name, initial) \<in> set (INITIAL_VALUES ext).
            name \<in> set (INHERITED ext) \<longrightarrow>
            stored ?cs (AtPage, Some page_type) name = None \<longrightarrow>
            specified name = Some initial"
    proof (intro ballI, clarify)
      fix name initial
      assume ni: "(name, initial) \<in> set (INITIAL_VALUES ext)"
        and inh: "name \<in> set (INHERITED ext)"
        and ab: "stored ?cs (AtPage, Some page_type) name = None"
      from ab have "map_of ?c name = None"
        by (auto simp: stored_def split: option.splits)
      from specified_page_inherited [OF dict sp ni inh this]
      show "specified name = Some initial" .
    qed
    with sp v st show "\<exists>specified.
                   specified_from_cascaded ext ?c None = Inr specified
                   \<and> computed (AtPage, Some page_type) =
                       Some (compute_values ext AtPage (Some page_type) specified None)
                   \<and> (\<forall>(name, initial) \<in> set (INITIAL_VALUES ext).
                        name \<in> set (INHERITED ext) \<longrightarrow>
                        stored ?cs (AtPage, Some page_type) name = None \<longrightarrow>
                        specified name = Some initial)"
      by blast
  qed
  from keys four c pages show ?thesis by blast
qed

section \<open>When get_all_computed_styles returns\<close>

lemma for_each_total:
  assumes "P s"
      and "\<And>x s. x \<in> set xs \<Longrightarrow> P s \<Longrightarrow> \<exists>s'. body x s = Inr s' \<and> P s'"
  shows "\<exists>s'. for_each body xs s = Inr s' \<and> P s'"
  using assms
proof (induction xs arbitrary: s)
  case Nil
  then show ?case by simp
next
  case (Cons x xs)
  have "x \<in> set (x # xs)" by simp
  from Cons.prems(2) [OF this Cons.prems(1)] obtain s1 where
    b: "body x s = Inr s1" and p: "P s1" by blast
  have "\<exists>s'. for_each body xs s1 = Inr s' \<and> P s'"
  proof (rule Cons.IH [OF p])
    fix y t assume "y \<in> set xs" and "P t"
    then show "\<exists>s'. body y t = Inr s' \<and> P s'" using Cons.prems(2) [of y t] by simp
  qed
  with b show ?case by simp
qed

lemma declaration_precedence_returns: "\<exists>precedence. declaration_precedence origin importance = Inr precedence"
  by (simp add: declaration_precedence_def py_assert_def)

lemma add_declaration_keys:
  "fst ` set (add_declaration cs n v w el pt) = insert (el, pt) (fst ` set cs)"
  by (simp add: add_declaration_def Let_def dom_update)

lemma add_matched_declaration_total:
  assumes "keys_in D st" and "\<forall>e. fst m = Element e \<longrightarrow> e \<in> D"
  shows "\<exists>st'. add_matched_declaration origin m d st = Inr st' \<and> keys_in D st'"
proof -
  obtain el pt sp where m: "m = (el, pt, sp)" by (cases m)
  obtain name v importance where d: "d = (name, v, importance)" by (cases d)
  obtain precedence where p: "declaration_precedence origin importance = Inr precedence"
    using declaration_precedence_returns by blast
  let ?st = "st\<lparr>st_cascaded := add_declaration (st_cascaded st) name v (precedence, sp) el pt\<rparr>"
  have "add_matched_declaration origin m d st = Inr ?st"
    using m d p by (simp add: add_matched_declaration_def)
  moreover have "keys_in D ?st"
    using assms m by (auto simp: keys_in_def add_declaration_keys)
  ultimately show ?thesis by blast
qed

lemma add_matched_total:
  fixes st :: "('e, 'v) cascade_state"
  assumes "keys_in D st" and "\<forall>e. fst m = Element e \<longrightarrow> e \<in> D"
  shows "\<exists>st'. add_matched origin declarations m st = Inr st' \<and> keys_in D st'"
  unfolding add_matched_def
proof (rule for_each_total)
  show "keys_in D (st\<lparr>st_pseudo_type := Some (fst (snd m))\<rparr>)"
    using assms(1) by (simp add: keys_in_def)
next
  fix d and s :: "('e, 'v) cascade_state" assume "keys_in D s"
  then show "\<exists>s'. add_matched_declaration origin m d s = Inr s' \<and> keys_in D s'"
    using assms(2) by (rule add_matched_declaration_total)
qed

lemma compile_selectors_returns:
  "(\<exists>w. compile_selectors selector_list = Inr (Inl w))
   \<or> (\<exists>selectors. compile_selectors selector_list = Inr (Inr selectors)
        \<and> (\<forall>(els, pt, sp) \<in> set selectors.
              \<exists>s \<in> set selector_list. selector_to_xpath s = Inr (pt, els)))"
proof (induction selector_list)
  case Nil
  then show ?case by simp
next
  case (Cons selector rest)
  show ?case
  proof (cases "selector_to_xpath selector")
    case (Inl e)
    with selector_to_xpath_error [OF Inl] show ?thesis by simp
  next
    case (Inr r)
    obtain pt els where r: "r = (pt, els)" by (cases r)
    from Cons.IH show ?thesis
    proof
      assume "\<exists>w. compile_selectors rest = Inr (Inl w)"
      with Inr r show ?thesis by auto
    next
      assume "\<exists>selectors. compile_selectors rest = Inr (Inr selectors)
        \<and> (\<forall>(els, pt, sp) \<in> set selectors. \<exists>s \<in> set rest. selector_to_xpath s = Inr (pt, els))"
      then obtain selectors where c: "compile_selectors rest = Inr (Inr selectors)"
        and a: "\<forall>(els, pt, sp) \<in> set selectors. \<exists>s \<in> set rest. selector_to_xpath s = Inr (pt, els)"
        by blast
      have "compile_selectors (selector # rest) =
              Inr (Inr ((els, pt, selector_specificity selector) # selectors))"
        using Inr r c by simp
      moreover have "\<forall>(els, pt, sp) \<in> set ((els, pt, selector_specificity selector) # selectors).
              \<exists>s \<in> set (selector # rest). selector_to_xpath s = Inr (pt, els)"
        using a Inr r by auto
      ultimately show ?thesis by blast
    qed
  qed
qed

lemma match_selectors_returns:
  assumes "\<forall>s \<in> set selector_list. \<forall>pt els. selector_to_xpath s = Inr (pt, els) \<longrightarrow> set els \<subseteq> D"
  shows "\<exists>warnings triples. match_selectors selector_list = Inr (warnings, triples)
           \<and> (\<forall>m \<in> set triples. \<forall>e. fst m = Element e \<longrightarrow> e \<in> D)"
  using compile_selectors_returns [of selector_list]
proof
  assume "\<exists>w. compile_selectors selector_list = Inr (Inl w)"
  then show ?thesis by (auto simp: match_selectors_def)
next
  assume "\<exists>selectors. compile_selectors selector_list = Inr (Inr selectors)
        \<and> (\<forall>(els, pt, sp) \<in> set selectors.
              \<exists>s \<in> set selector_list. selector_to_xpath s = Inr (pt, els))"
  then obtain selectors where c: "compile_selectors selector_list = Inr (Inr selectors)"
    and a: "\<forall>(els, pt, sp) \<in> set selectors.
              \<exists>s \<in> set selector_list. selector_to_xpath s = Inr (pt, els)"
    by blast
  let ?triples = "concat (map (\<lambda>(selector_callable, pseudo_type, specificity).
                     map (\<lambda>el. (Element el, pseudo_type, Tuple specificity)) selector_callable)
                   selectors)"
  have "match_selectors selector_list = Inr ([], ?triples)"
    using c by (simp add: match_selectors_def)
  moreover have "\<forall>m \<in> set ?triples. \<forall>e. fst m = Element e \<longrightarrow> e \<in> D"
    using a assms by fastforce
  ultimately show ?thesis by blast
qed

lemma match_page_selector_returns:
  assumes "selector \<in> {'''', '':left'', '':right'', '':first''}"
  shows "\<exists>warnings triples.
           (match_page_selector selector :: error + (string list \<times> 'e matched list))
             = Inr (warnings, triples)
           \<and> (\<forall>m \<in> set triples. fst m = AtPage)"
  using assms
  by (auto simp: match_page_selector_def truthy_def PAGE_PSEUDOCLASS_TARGETS_def
      PAGE_PSEUDOCLASS_SPECIFICITY_def)

lemma matched_total:
  fixes matched :: "error + (string list \<times> 'e matched list)"
    and st :: "('e, 'v) cascade_state"
  assumes "keys_in D st" and "matched = Inr (warnings, triples)"
      and "\<forall>m \<in> set triples. \<forall>e. fst m = Element e \<longrightarrow> e \<in> D"
  shows "\<exists>st'. for_each (add_matched origin declarations) triples
                 (st\<lparr>st_log := st_log st @ warnings\<rparr>) = Inr st' \<and> keys_in D st'"
proof (rule for_each_total)
  show "keys_in D (st\<lparr>st_log := st_log st @ warnings\<rparr>)"
    using assms(1) by (simp add: keys_in_def)
next
  fix m and s :: "('e, 'v) cascade_state" assume "m \<in> set triples" and "keys_in D s"
  with assms(3) show "\<exists>s'. add_matched origin declarations m s = Inr s' \<and> keys_in D s'"
    by (intro add_matched_total) auto
qed

lemma cascade_rule_total:
  fixes st :: "('e, 'v) cascade_state"
  assumes "keys_in D st" and "rule_ok D r"
  shows "\<exists>st'. cascade_rule ext origin r st = Inr st' \<and> keys_in D st'"
proof (cases r)
  case (STYLE_RULE selector_list block)
  with assms(2) have "\<forall>s \<in> set selector_list. \<forall>pt els.
      selector_to_xpath s = Inr (pt, els) \<longrightarrow> set els \<subseteq> D"
    by (simp add: rule_ok_def)
  from match_selectors_returns [OF this] obtain warnings triples where
    m: "match_selectors selector_list = Inr (warnings, triples)"
    and t: "\<forall>m \<in> set triples. \<forall>e. fst m = Element e \<longrightarrow> e \<in> D"
    by blast
  from matched_total [OF assms(1) m t]
  show ?thesis using STYLE_RULE m by (simp add: cascade_rule_def)
next
  case (PAGE_RULE selector block)
  with assms(2) have "selector \<in> {'''', '':left'', '':right'', '':first''}"
    by (simp add: rule_ok_def)
  from match_page_selector_returns [OF this] obtain warnings and triples :: "'e matched list" where
    m: "match_page_selector selector = Inr (warnings, triples)"
    and t: "\<forall>m \<in> set triples. fst m = AtPage"
    by blast
  from t have t': "\<forall>m \<in> set triples. \<forall>e. fst m = Element e \<longrightarrow> e \<in> D" by simp
  from matched_total [OF assms(1) m t']
  show ?thesis using PAGE_RULE m by (simp add: cascade_rule_def)
qed (use assms(1) in \<open>simp_all add: cascade_rule_def\<close>)

lemma cascade_origin_total:
  fixes st :: "('e, 'v) cascade_state"
  assumes "keys_in D st" and "sheets_ok D medium sheets"
  shows "\<exists>st'. cascade_origin ext medium (sheets, origin) st = Inr st' \<and> keys_in D st'"
  unfolding cascade_origin_def prod.case
proof (rule for_each_total [where P = "keys_in D", OF assms(1)])
  fix sheet and s :: "('e, 'v) cascade_state"
  assume sh: "sheet \<in> set sheets" and k: "keys_in D s"
  show "\<exists>s'. cascade_sheet ext medium origin sheet s = Inr s' \<and> keys_in D s'"
    unfolding cascade_sheet_def
  proof (rule for_each_total [where P = "keys_in D", OF k])
    fix r and t :: "('e, 'v) cascade_state"
    assume "r \<in> set (effective_rules sheet medium)" and "keys_in D t"
    with sh assms(2) show "\<exists>s'. cascade_rule ext origin r t = Inr s' \<and> keys_in D s'"
      by (intro cascade_rule_total) (auto simp: sheets_ok_def)
  qed
qed

lemma cascade_total:
  fixes ext :: "('e, 'v) externals"
  assumes "sheets_ok D medium (find_stylesheets doc)"
      and "sheets_ok D medium (or_empty user_stylesheets)"
      and "sheets_ok D medium (or_empty ua_stylesheets)"
      and "find_style_attributes ext doc = []"
  shows "\<exists>st. cascade ext doc medium user_stylesheets ua_stylesheets = Inr st \<and> keys_in D st"
proof -
  let ?init = "\<lparr>st_cascaded = [], st_pseudo_type = None, st_log = []\<rparr> :: ('e, 'v) cascade_state"
  let ?origins = "[(find_stylesheets doc, ''author''), (or_empty user_stylesheets, ''user''),
            (or_empty ua_stylesheets, ''user agent'')]"
  have "\<exists>st. for_each (cascade_origin ext medium) ?origins ?init = Inr st \<and> keys_in D st"
  proof (rule for_each_total)
    show "keys_in D ?init" by (simp add: keys_in_def)
  next
    fix so and s :: "('e, 'v) cascade_state"
    assume "so \<in> set ?origins" and k: "keys_in D s"
    then obtain sheets origin where so: "so = (sheets, origin)" and "sheets_ok D medium sheets"
      using assms(1-3) by auto
    with k show "\<exists>s'. cascade_origin ext medium so s = Inr s' \<and> keys_in D s'"
      by (simp add: cascade_origin_total)
  qed
  then show ?thesis using assms(4) by (auto simp: cascade_def)
qed

lemma specified_total:
  assumes "\<forall>ps. parent_style = Some ps \<longrightarrow> fst ` set ivs \<subseteq> dom ps"
  shows "\<exists>style'. for_each (specified_value ext parent_style) ivs style = Inr style'
           \<and> dom style \<union> fst ` set ivs \<subseteq> dom style'"
  using assms
proof (induction ivs arbitrary: style)
  case Nil
  then show ?case by simp
next
  case (Cons ni ivs)
  obtain name initial where ni: "ni = (name, initial)" by (cases ni)
  let ?s1 = "style(name := specified_of ext parent_style style name initial)"
  from Cons.prems ni have p: "\<forall>ps. parent_style = Some ps \<longrightarrow> name \<in> dom ps" by auto
  then have step: "specified_value ext parent_style (name, initial) style = Inr ?s1"
    by (rule specified_value_step)
  from p have "specified_of ext parent_style style name initial \<noteq> None"
    by (rule specified_of_defined)
  then have d1: "insert name (dom style) \<subseteq> dom ?s1" by auto
  from Cons.prems have "\<forall>ps. parent_style = Some ps \<longrightarrow> fst ` set ivs \<subseteq> dom ps" by auto
  from Cons.IH [OF this, of ?s1] obtain style' where
    run: "for_each (specified_value ext parent_style) ivs ?s1 = Inr style'"
    and d: "dom ?s1 \<union> fst ` set ivs \<subseteq> dom style'"
    by blast
  have "for_each (specified_value ext parent_style) (ni # ivs) style = Inr style'"
    using step run ni by simp
  moreover have "dom style \<union> fst ` set (ni # ivs) \<subseteq> dom style'"
    using d d1 ni by auto
  ultimately show ?case by blast
qed

lemma computed_from_cascaded_total:
  assumes "\<forall>ps. parent_style = Some ps \<longrightarrow> complete ext ps"
      and "\<forall>el pt style ps. dom style \<subseteq> dom (compute_values ext el pt style ps)"
  shows "\<exists>style. computed_from_cascaded ext el cascaded parent_style pseudo_type = Inr style
           \<and> complete ext style"
proof -
  let ?s0 = "map_of (map (\<lambda>(name, (v, precedence)). (name, v)) cascaded)"
  from assms(1) have "\<forall>ps. parent_style = Some ps \<longrightarrow> fst ` set (INITIAL_VALUES ext) \<subseteq> dom ps"
    by (simp add: complete_def)
  from specified_total [OF this, of ext ?s0] obtain specified where
    run: "specified_from_cascaded ext cascaded parent_style = Inr specified"
    and d: "fst ` set (INITIAL_VALUES ext) \<subseteq> dom specified"
    by (auto simp: specified_from_cascaded_def)
  from d assms(2) have "complete ext (compute_values ext el pseudo_type specified parent_style)"
    unfolding complete_def by blast
  with run show ?thesis by (simp add: computed_from_cascaded_def)
qed

lemma set_computed_styles_total:
  assumes j: "all_complete ext computed"
      and keeps: "\<forall>el pt style ps. dom style \<subseteq> dom (compute_values ext el pt style ps)"
      and parent: "\<forall>e. el = Element e \<longrightarrow>
             (if truthy_opt pseudo_type then (Element e, None) \<in> dom computed
              else \<forall>p. getparent doc e = Some p \<longrightarrow> (Element p, None) \<in> dom computed)"
  shows "\<exists>computed'. set_computed_styles ext doc cascaded_styles el pseudo_type computed = Inr computed'
           \<and> all_complete ext computed' \<and> dom computed' = insert (el, pseudo_type) (dom computed)"
proof -
  let ?parent = "case el of
                   AtPage \<Rightarrow> None
                 | Element e \<Rightarrow>
                     if truthy_opt pseudo_type then Some el
                     else map_option Element (getparent doc e)"
  let ?c = "case map_of cascaded_styles (el, pseudo_type) of None \<Rightarrow> [] | Some c \<Rightarrow> c"
  have "\<exists>ps. (case ?parent of
                 None \<Rightarrow> Inr None
               | Some p \<Rightarrow> (case computed (p, None) of
                              None \<Rightarrow> Inl KeyError
                            | Some s \<Rightarrow> Inr (Some s))) = Inr ps
             \<and> (\<forall>s. ps = Some s \<longrightarrow> complete ext s)"
  proof (cases ?parent)
    case None
    then show ?thesis by simp
  next
    case (Some p)
    then obtain e where el: "el = Element e" by (cases el) auto
    with Some parent have "(p, None) \<in> dom computed"
      by (auto split: if_splits)
    then obtain s where s: "computed (p, None) = Some s" by auto
    with j have "complete ext s" by (auto simp: all_complete_def)
    with Some s show ?thesis by simp
  qed
  then obtain ps where
    ps: "(case ?parent of
            None \<Rightarrow> Inr None
          | Some p \<Rightarrow> (case computed (p, None) of
                         None \<Rightarrow> Inl KeyError
                       | Some s \<Rightarrow> Inr (Some s))) = Inr ps"
    and c: "\<forall>s. ps = Some s \<longrightarrow> complete ext s"
    by blast
  from computed_from_cascaded_total [OF c keeps, of el ?c pseudo_type] obtain style where
    st: "computed_from_cascaded ext el ?c ps pseudo_type = Inr style"
    and cs: "complete ext style"
    by blast
  let ?computed' = "computed((el, pseudo_type) \<mapsto> style)"
  have "set_computed_styles ext doc cascaded_styles el pseudo_type computed = Inr ?computed'"
    using ps st by (simp add: set_computed_styles_def Let_def)
  moreover have "all_complete ext ?computed'"
    using j cs by (auto simp: all_complete_def)
  moreover have "dom ?computed' = insert (el, pseudo_type) (dom computed)" by simp
  ultimately show ?thesis by blast
qed

lemma elements_loop_total:
  assumes "all_complete ext computed"
      and keeps: "\<forall>el pt style ps. dom style \<subseteq> dom (compute_values ext el pt style ps)"
      and "\<forall>i < length xs. \<forall>p. getparent doc (xs ! i) = Some p \<longrightarrow>
             (Element p, None) \<in> dom computed \<or> p \<in> set (take i xs)"
  shows "\<exists>computed'. for_each (\<lambda>e. set_computed_styles ext doc cascaded_styles (Element e) None)
                         xs computed = Inr computed'
           \<and> all_complete ext computed'
           \<and> (\<forall>e \<in> set xs. (Element e, None) \<in> dom computed')"
  using assms(1,3)
proof (induction xs arbitrary: computed)
  case Nil
  then show ?case by simp
next
  case (Cons x xs)
  from Cons.prems(2) have "\<forall>p. getparent doc x = Some p \<longrightarrow> (Element p, None) \<in> dom computed"
    by fastforce
  then have "\<forall>e. Element x = Element e \<longrightarrow>
             (if truthy_opt None then (Element e, None) \<in> dom computed
              else \<forall>p. getparent doc e = Some p \<longrightarrow> (Element p, None) \<in> dom computed)"
    by (simp add: truthy_opt_def)
  from set_computed_styles_total [OF Cons.prems(1) keeps this, of cascaded_styles]
  obtain c1 where
    b: "set_computed_styles ext doc cascaded_styles (Element x) None computed = Inr c1"
    and j1: "all_complete ext c1"
    and d1: "dom c1 = insert (Element x, None) (dom computed)"
    by blast
  have tree: "\<forall>i < length xs. \<forall>p. getparent doc (xs ! i) = Some p \<longrightarrow>
             (Element p, None) \<in> dom c1 \<or> p \<in> set (take i xs)"
  proof (intro allI impI)
    fix i p assume i: "i < length xs" and g: "getparent doc (xs ! i) = Some p"
    from Cons.prems(2) i g
    have "(Element p, None) \<in> dom computed \<or> p \<in> set (take (Suc i) (x # xs))"
      by (metis Suc_less_eq length_Cons nth_Cons_Suc)
    with d1 show "(Element p, None) \<in> dom c1 \<or> p \<in> set (take i xs)" by auto
  qed
  from Cons.IH [OF j1 tree] obtain c' where
    r: "for_each (\<lambda>e. set_computed_styles ext doc cascaded_styles (Element e) None) xs c1 = Inr c'"
    and j': "all_complete ext c'"
    and d': "\<forall>e \<in> set xs. (Element e, None) \<in> dom c'"
    by blast
  have "dom c1 \<subseteq> dom c'"
  proof -
    have "dom c' = dom c1 \<union> (\<lambda>e. (Element e, None)) ` set xs
           \<and> (\<forall>k. k \<notin> (\<lambda>e. (Element e, None)) ` set xs \<longrightarrow> c' k = c1 k)"
      by (rule for_each_assign [OF r]) (rule set_computed_styles_assigns)
    then show ?thesis by blast
  qed
  with d1 have "(Element x, None) \<in> dom c'" by blast
  with b r j' d' show ?case by auto
qed

lemma compute_all_total:
  fixes ext :: "('e, 'v) externals"
  assumes keeps: "\<forall>el pt style ps. dom style \<subseteq> dom (compute_values ext el pt style ps)"
      and tree: "\<forall>i < length (dom_iter doc). \<forall>p.
                   getparent doc (dom_iter doc ! i) = Some p \<longrightarrow> p \<in> set (take i (dom_iter doc))"
      and keys: "\<forall>e pt. (Element e, pt) \<in> fst ` set cascaded_styles \<longrightarrow> e \<in> set (dom_iter doc)"
  shows "\<exists>computed. compute_all ext doc cascaded_styles = Inr computed"
proof -
  let ?set = "set_computed_styles ext doc cascaded_styles"
  let ?P = "\<lambda>c :: ('e, 'v) computed_styles.
              all_complete ext c \<and> (\<forall>e \<in> set (dom_iter doc). (Element e, None) \<in> dom c)"
  have cond: "(\<lambda>(el, pseudo_type) computed.
                 if truthy_opt pseudo_type \<and> el \<noteq> AtPage then ?set el pseudo_type computed
                 else Inr computed)
              = (\<lambda>k computed. if pseudo_element_key k then ?set (fst k) (snd k) computed
                               else Inr computed)"
    by (auto simp: pseudo_element_key_def fun_eq_iff)
  have pt: "PAGE_PSEUDOCLASS_TARGETS None = Some page_types"
    by (simp add: PAGE_PSEUDOCLASS_TARGETS_def page_types_def)
  have e0: "all_complete ext (Map.empty :: ('e, 'v) computed_styles)"
    by (simp add: all_complete_def)
  from tree have "\<forall>i < length (dom_iter doc). \<forall>p.
      getparent doc (dom_iter doc ! i) = Some p \<longrightarrow>
        (Element p, None) \<in> dom (Map.empty :: ('e, 'v) computed_styles)
        \<or> p \<in> set (take i (dom_iter doc))"
    by simp
  from elements_loop_total [OF e0 keeps this, of cascaded_styles] obtain c1 where
    l1: "for_each (\<lambda>e. ?set (Element e) None) (dom_iter doc) Map.empty = Inr c1"
    and p1: "?P c1"
    by blast
  have "\<exists>c2. for_each (\<lambda>k. ?set (fst k) (snd k))
               (filter pseudo_element_key (map fst cascaded_styles)) c1 = Inr c2 \<and> ?P c2"
  proof (rule for_each_total [where P = ?P, OF p1])
    fix k and c :: "('e, 'v) computed_styles"
    assume k: "k \<in> set (filter pseudo_element_key (map fst cascaded_styles))" and p: "?P c"
    then obtain e where fk: "fst k = Element e" and t: "truthy_opt (snd k)"
      by (cases "fst k") (auto simp: pseudo_element_key_def)
    from k have "k \<in> fst ` set cascaded_styles" by simp
    with fk have "(Element e, snd k) \<in> fst ` set cascaded_styles"
      by (metis prod.collapse)
    with keys have "e \<in> set (dom_iter doc)" by blast
    with p have "(Element e, None) \<in> dom c" by blast
    with fk t have "\<forall>e'. fst k = Element e' \<longrightarrow>
             (if truthy_opt (snd k) then (Element e', None) \<in> dom c
              else \<forall>p. getparent doc e' = Some p \<longrightarrow> (Element p, None) \<in> dom c)"
      by simp
    from set_computed_styles_total [OF _ keeps this, of cascaded_styles] p
    obtain c' where
      r: "?set (fst k) (snd k) c = Inr c'" and j: "all_complete ext c'"
      and d: "dom c' = insert (fst k, snd k) (dom c)"
      by blast
    from d p have "\<forall>e \<in> set (dom_iter doc). (Element e, None) \<in> dom c'" by blast
    with r j show "\<exists>c'. ?set (fst k) (snd k) c = Inr c' \<and> ?P c'" by blast
  qed
  then obtain c2 where
    l2: "for_each (\<lambda>k. ?set (fst k) (snd k))
               (filter pseudo_element_key (map fst cascaded_styles)) c1 = Inr c2"
    and p2: "all_complete ext c2"
    by blast
  have "\<exists>c3. for_each (\<lambda>page_type. ?set AtPage (Some page_type)) page_types c2 = Inr c3
          \<and> all_complete ext c3"
  proof (rule for_each_total [where P = "all_complete ext", OF p2])
    fix page_type and c :: "('e, 'v) computed_styles" assume j: "all_complete ext c"
    have "\<forall>e. AtPage = Element e \<longrightarrow>
             (if truthy_opt (Some page_type) then (Element e, None) \<in> dom c
              else \<forall>p. getparent doc e = Some p \<longrightarrow> (Element p, None) \<in> dom c)"
      by simp
    from set_computed_styles_total [OF j keeps this, of cascaded_styles]
    show "\<exists>c'. ?set AtPage (Some page_type) c = Inr c' \<and> all_complete ext c'" by blast
  qed
  then obtain c3 where
    l3: "for_each (\<lambda>page_type. ?set AtPage (Some page_type)) page_types c2 = Inr c3"
    by blast
  have "compute_all ext doc cascaded_styles = Inr c3"
    unfolding compute_all_def cond for_each_filter pt using l1 l2 l3 by simp
  then show ?thesis by blast
qed

text \<open>
  get_all_computed_styles returns a dict for every document with no style attribute
  whose elements come in tree order (every parent before its children), with
  stylesheets whose page selectors are supported and whose selectors match elements of
  the document, provided that compute_values removes no property.
\<close>

theorem get_all_computed_styles_returns:
  fixes ext :: "('e, 'v) externals"
  assumes "sheets_ok (set (dom_iter doc)) medium (find_stylesheets doc)"
      and "sheets_ok (set (dom_iter doc)) medium (or_empty user_stylesheets)"
      and "sheets_ok (set (dom_iter doc)) medium (or_empty ua_stylesheets)"
      and "find_style_attributes ext doc = []"
      and "\<forall>i < length (dom_iter doc). \<forall>p.
             getparent doc (dom_iter doc ! i) = Some p \<longrightarrow> p \<in> set (take i (dom_iter doc))"
      and "\<forall>el pt style ps. dom style \<subseteq> dom (compute_values ext el pt style ps)"
  shows "\<exists>computed.
           get_all_computed_styles ext doc medium user_stylesheets ua_stylesheets = Inr computed"
proof -
  from cascade_total [OF assms(1-4)] obtain st where
    c: "cascade ext doc medium user_stylesheets ua_stylesheets = Inr st"
    and k: "keys_in (set (dom_iter doc)) st"
    by blast
  from k have "\<forall>e pt. (Element e, pt) \<in> fst ` set (st_cascaded st) \<longrightarrow> e \<in> set (dom_iter doc)"
    by (simp add: keys_in_def)
  from compute_all_total [OF assms(6,5) this] c show ?thesis
    by (simp add: get_all_computed_styles_def)
qed

section \<open>The theorems on an example document\<close>

lemma cascade_before_sheet:
  "cascade demo_externals (styled_document [before_sheet]) ''print'' None None =
     Inr \<lparr>st_cascaded =
            [((Element 0, Some ''before''),
              [(''content'', (''x'', (Some 3, Tuple (0, 0, 0, 2)))),
               (''color'', (''red'', (Some 3, Tuple (1, 0, 0, 0))))])],
          st_pseudo_type = Some (Some ''before''), st_log = []\<rparr>"
  by code_simp

lemma styled_document_returns:
  "\<not> isl (get_all_computed_styles demo_externals (styled_document [before_sheet]) ''print'' None None)"
  by code_simp

text \<open>
  The hypotheses of the last theorem hold for the document of one element with no style
  attribute and the stylesheet \<^verbatim>\<open>p:before { content: x }\<close>.
\<close>

lemma get_all_computed_styles_returns_example:
  "\<exists>computed. get_all_computed_styles demo_externals (plain_document [before_sheet])
     ''print'' None None = Inr computed"
proof (rule get_all_computed_styles_returns)
  let ?doc = "plain_document [before_sheet]"
  show "sheets_ok (set (dom_iter ?doc)) ''print'' (find_stylesheets ?doc)"
    by (auto simp: sheets_ok_def plain_document_def before_sheet_def effective_rules_def
        evaluate_media_query_def rule_ok_def selector_to_xpath_def PSEUDO_ELEMENTS_def)
  show "sheets_ok (set (dom_iter ?doc)) ''print'' (or_empty None)"
    by (simp add: sheets_ok_def or_empty_def)
  show "sheets_ok (set (dom_iter ?doc)) ''print'' (or_empty None)"
    by (simp add: sheets_ok_def or_empty_def)
  show "find_style_attributes demo_externals ?doc = []"
    by (simp add: find_style_attributes_def plain_document_def)
  show "\<forall>i < length (dom_iter ?doc). \<forall>p.
          getparent ?doc (dom_iter ?doc ! i) = Some p \<longrightarrow> p \<in> set (take i (dom_iter ?doc))"
    by (simp add: plain_document_def)
  show "\<forall>el pt style ps. dom style \<subseteq> dom (compute_values demo_externals el pt style ps)"
    by (simp add: demo_externals_def)
qed

text \<open>
  The theorem at the document of one element with a style attribute and the stylesheet
  \<^verbatim>\<open>p:before { content: x }\<close>, which has no @page rule: the four page styles are
  there, and the inherited 'color' of the left page is the initial 'black'.
\<close>

theorem page_styles_present_witness:
  "\<exists>computed.
     get_all_computed_styles demo_externals (styled_document [before_sheet]) ''print'' None None
       = Inr computed
     \<and> card {k \<in> dom computed. fst k = AtPage} = 4
     \<and> (\<exists>style. computed (AtPage, Some ''left'') = Some style \<and> style ''color'' = Some ''black'')"
proof -
  let ?doc = "styled_document [before_sheet]"
  let ?cs = "[((Element (0::nat), Some ''before''),
              [(''content'', (''x'', (Some (3::int), Tuple (0, 0, 0, 2)))),
               (''color'', (''red'', (Some 3, Tuple (1, 0, 0, 0))))])]"
  from styled_document_returns obtain computed where
    ret: "get_all_computed_styles demo_externals ?doc ''print'' None None = Inr computed"
    by (cases "get_all_computed_styles demo_externals ?doc ''print'' None None") auto
  have dict: "distinct (map fst (INITIAL_VALUES demo_externals))"
    by (simp add: demo_externals_def)
  note main = page_styles_present [OF ret dict]
  from main have four: "card {k \<in> dom computed. fst k = AtPage} = 4"
    by (elim conjE)
  from main obtain st where
    c: "cascade demo_externals ?doc ''print'' None None = Inr st"
    and pages: "\<forall>page_type \<in> {''left'', ''right'', ''first_left'', ''first_right''}.
                 \<exists>specified.
                   specified_from_cascaded demo_externals
                     (case map_of (st_cascaded st) (AtPage, Some page_type) of
                        None \<Rightarrow> [] | Some c \<Rightarrow> c) None = Inr specified
                   \<and> computed (AtPage, Some page_type) =
                       Some (compute_values demo_externals AtPage (Some page_type) specified None)
                   \<and> (\<forall>(name, initial) \<in> set (INITIAL_VALUES demo_externals).
                        name \<in> set (INHERITED demo_externals) \<longrightarrow>
                        stored (st_cascaded st) (AtPage, Some page_type) name = None \<longrightarrow>
                        specified name = Some initial)"
    by (elim conjE exE)
  from c have cs: "st_cascaded st = ?cs"
    unfolding cascade_before_sheet by auto
  have "''left'' \<in> {''left'', ''right'', ''first_left'', ''first_right''}" by simp
  from bspec [OF pages this] obtain specified where
    v: "computed (AtPage, Some ''left'') =
          Some (compute_values demo_externals AtPage (Some ''left'') specified None)"
    and i: "\<forall>(name, initial) \<in> set (INITIAL_VALUES demo_externals).
                        name \<in> set (INHERITED demo_externals) \<longrightarrow>
                        stored (st_cascaded st) (AtPage, Some ''left'') name = None \<longrightarrow>
                        specified name = Some initial"
    by (elim conjE exE)
  have "(''color'', ''black'') \<in> set (INITIAL_VALUES demo_externals)"
    by (simp add: demo_externals_def)
  from bspec [OF i this] have "specified ''color'' = Some ''black''"
    by (simp add: demo_externals_def stored_def cs)
  with v have "\<exists>style. computed (AtPage, Some ''left'') = Some style \<and> style ''color'' = Some ''black''"
    by (simp add: demo_externals_def)
  with ret four show ?thesis by blast
qed

text \<open>
  The key theorem at the same document: the element, its 'before' pseudo-element and the
  four pages.
\<close>

theorem computed_styles_keys_witness:
  "\<exists>computed.
     get_all_computed_styles demo_externals (styled_document [before_sheet]) ''print'' None None
       = Inr computed
     \<and> dom computed =
         {(Element 0, None), (Element 0, Some ''before''),
          (AtPage, Some ''left''), (AtPage, Some ''right''),
          (AtPage, Some ''first_left''), (AtPage, Some ''first_right'')}"
proof -
  let ?doc = "styled_document [before_sheet]"
  from styled_document_returns obtain computed where
    ret: "get_all_computed_styles demo_externals ?doc ''print'' None None = Inr computed"
    by (cases "get_all_computed_styles demo_externals ?doc ''print'' None None") auto
  let ?cs = "[((Element (0::nat), Some ''before''),
              [(''content'', (''x'', (Some (3::int), Tuple (0, 0, 0, 2)))),
               (''color'', (''red'', (Some 3, Tuple (1, 0, 0, 0))))])]"
  from computed_styles_keys [OF ret] obtain st where
    c: "cascade demo_externals ?doc ''print'' None None = Inr st"
    and d: "dom computed =
               {(Element e, None) | e. e \<in> set (dom_iter ?doc)}
               \<union> {(Element e, Some p) | e p.
                    \<exists>name vw. stored (st_cascaded st) (Element e, Some p) name = Some vw}
               \<union> {(AtPage, Some page_type) | page_type.
                    page_type \<in> {''left'', ''right'', ''first_left'', ''first_right''}}"
    by (elim conjE exE)
  from c have cs: "st_cascaded st = ?cs"
    unfolding cascade_before_sheet by auto
  have a: "{(Element e, None) | e. e \<in> set (dom_iter ?doc)} = {(Element 0, None)}"
    by (auto simp: styled_document_def)
  have b: "{(Element e, Some p) | e p. \<exists>name vw. stored ?cs (Element e, Some p) name = Some vw}
      = {(Element 0, Some ''before'')}"
    by (auto simp: stored_def split: if_splits)
  have c: "{(AtPage, Some page_type) | page_type.
                    page_type \<in> {''left'', ''right'', ''first_left'', ''first_right''}}
      = {(AtPage :: nat element_ref, Some ''left''), (AtPage, Some ''right''),
          (AtPage, Some ''first_left''), (AtPage, Some ''first_right'')}"
    by auto
  from d have "dom computed =
         {(Element 0, None), (Element 0, Some ''before''),
          (AtPage, Some ''left''), (AtPage, Some ''right''),
          (AtPage, Some ''first_left''), (AtPage, Some ''first_right'')}"
    unfolding cs a b c by auto
  with ret show ?thesis by blast
qed

section \<open>Idempotence of the normalization passes\<close>

lemma block_level_inline_in_block [simp]: "block_level (inline_in_block b) = block_level b"
  by (cases b) simp_all

lemma is_line_inline_in_block [simp]: "is_line (inline_in_block b) = is_line b"
  by (cases b) simp_all

lemma block_level_anonymous_line [simp]: "block_level (anonymous_line e run)"
  by (simp add: anonymous_line_def)

lemma wrap_runs_block_level: "x \<in> set (wrap_runs e run cs) \<Longrightarrow> block_level x"
  by (induction cs arbitrary: run) (auto split: if_splits)

lemma wrap_runs_blocks: "\<forall>c \<in> set cs. block_level c \<Longrightarrow> wrap_runs e [] cs = cs"
  by (induction cs) auto

lemma block_level_not_line: "block_level b \<Longrightarrow> \<not> is_line b"
  by (cases b) auto

lemma wrap_inlines_idem: "wrap_inlines e (wrap_inlines e cs) = wrap_inlines e cs"
proof -
  consider (line) "length cs = 1 \<and> is_line (hd cs)"
    | (inl) "\<not> (length cs = 1 \<and> is_line (hd cs))" "cs \<noteq> []" "\<forall>c \<in> set cs. \<not> block_level c"
    | (mixed) "\<not> (length cs = 1 \<and> is_line (hd cs))" "\<not> (cs \<noteq> [] \<and> (\<forall>c \<in> set cs. \<not> block_level c))"
    by blast
  then show ?thesis
  proof cases
    case line
    then show ?thesis by (simp add: wrap_inlines_def)
  next
    case inl
    then show ?thesis by (simp add: wrap_inlines_def)
  next
    case mixed
    let ?ys = "wrap_runs e [] cs"
    have w: "wrap_inlines e cs = ?ys" using mixed by (auto simp: wrap_inlines_def)
    have bl: "\<forall>y \<in> set ?ys. block_level y" by (simp add: wrap_runs_block_level)
    have "\<not> (length ?ys = 1 \<and> is_line (hd ?ys))"
    proof
      assume a: "length ?ys = 1 \<and> is_line (hd ?ys)"
      then have "hd ?ys \<in> set ?ys" by (cases ?ys) auto
      with bl a show False using block_level_not_line by blast
    qed
    moreover have "\<not> (?ys \<noteq> [] \<and> (\<forall>c \<in> set ?ys. \<not> block_level c))"
    proof
      assume a: "?ys \<noteq> [] \<and> (\<forall>c \<in> set ?ys. \<not> block_level c)"
      then have "hd ?ys \<in> set ?ys" by (cases ?ys) auto
      with bl a show False by blast
    qed
    ultimately have "wrap_inlines e ?ys = wrap_runs e [] ?ys" by (auto simp: wrap_inlines_def)
    with bl w show ?thesis by (simp add: wrap_runs_blocks)
  qed
qed

lemma inline_in_block_anonymous_line:
  "\<forall>y \<in> set run. inline_in_block y = y \<Longrightarrow>
     inline_in_block (anonymous_line e run) = anonymous_line e run"
  by (simp add: anonymous_line_def block_container_def wrap_inlines_def map_idI)

lemma map_wrap_runs:
  "\<forall>y \<in> set (run @ ys). inline_in_block y = y \<Longrightarrow>
     map inline_in_block (wrap_runs e run ys) = wrap_runs e run ys"
  by (induction ys arbitrary: run) (auto simp: inline_in_block_anonymous_line)

lemma map_wrap_inlines:
  assumes "\<forall>y \<in> set ys. inline_in_block y = y"
  shows "map inline_in_block (wrap_inlines e ys) = wrap_inlines e ys"
proof -
  have "map inline_in_block ys = ys" using assms by (simp add: map_idI)
  moreover have "map inline_in_block (wrap_runs e [] ys) = wrap_runs e [] ys"
    using assms by (simp add: map_wrap_runs)
  ultimately show ?thesis
    by (simp add: wrap_inlines_def block_container_def)
qed

lemma inline_in_block_stable: "inline_in_block (inline_in_block b) = inline_in_block b"
proof (induction b)
  case (ParentBox t e cs)
  let ?ys = "map inline_in_block cs"
  from ParentBox have st: "\<forall>y \<in> set ?ys. inline_in_block y = y" by auto
  then have m: "map inline_in_block ?ys = ?ys" by (simp add: map_idI)
  show ?case
  proof (cases "block_container t")
    case True
    then show ?thesis
      using map_wrap_inlines [OF st, of e] by (simp add: wrap_inlines_idem)
  next
    case False
    with m show ?thesis by simp
  qed
qed simp_all

lemma block_level_block_in_inline [simp]: "block_level (block_in_inline b) = block_level b"
  by (cases b) simp_all

lemma expand_all_not_line:
  "\<not> is_line c \<Longrightarrow> expand_all (c # cs) = block_in_inline c # expand_all cs"
  by (cases c; cases "case c of ParentBox t e ks \<Rightarrow> t | _ \<Rightarrow> BlockBox") auto

lemma expand_all_append: "expand_all (xs @ ys) = expand_all xs @ expand_all ys"
proof (induction xs)
  case Nil
  then show ?case by simp
next
  case (Cons c xs)
  show ?case
  proof (cases "is_line c")
    case True
    then obtain e ks where "c = ParentBox LineBox e ks" by (cases c) auto
    with Cons show ?thesis by simp
  next
    case False
    with Cons show ?thesis by (simp add: expand_all_not_line)
  qed
qed

lemma expand_anonymous_line:
  "split_line f = (f, []) \<Longrightarrow> expand_all [anonymous_line e f] = [anonymous_line e f]"
  by (simp add: anonymous_line_def)

lemma expand_block:
  "block_level b \<Longrightarrow> block_in_inline b = b \<Longrightarrow> expand_all (b # cs) = b # expand_all cs"
  by (simp add: expand_all_not_line block_level_not_line)

lemma expand_emit_rest:
  "\<forall>(b, f) \<in> set rest. block_level b \<and> block_in_inline b = b \<and> split_line f = (f, []) \<Longrightarrow>
     expand_all (emit_rest e rest) = emit_rest e rest"
proof (induction e rest rule: emit_rest.induct)
  case (1 e)
  then show ?case by simp
next
  case (2 e b f)
  then show ?case by (simp add: expand_block expand_anonymous_line)
next
  case (3 e b f v va)
  then show ?case
    using expand_all_append [of "[anonymous_line e f]" "emit_rest e (v # va)"]
    by (simp add: expand_block expand_anonymous_line)
qed

lemma expand_emit: "clean_pieces p \<Longrightarrow> expand_all (emit e p) = emit e p"
proof (induction e p rule: emit.induct)
  case (1 e f0)
  then show ?case by simp
next
  case (2 e f0 v va)
  then have r: "expand_all (emit_rest e (v # va)) = emit_rest e (v # va)"
    by (intro expand_emit_rest) simp
  from 2 have f: "split_line f0 = (f0, [])" by simp
  show ?case
    using r expand_all_append [of "[anonymous_line e f0]" "emit_rest e (v # va)"]
    by (simp add: expand_anonymous_line [OF f])
qed

lemma split_inline_clean:
  "split_line g = (g, []) \<Longrightarrow> split_line f = (f, []) \<Longrightarrow>
     split_line (ParentBox InlineBox e g # f) = (ParentBox InlineBox e g # f, [])"
  by simp

lemma graft_rest_clean:
  assumes "block_level b" "block_in_inline b = b" "split_line g = (g, [])"
    and "\<forall>(b, f) \<in> set others. block_level b \<and> block_in_inline b = b \<and> split_line f = (f, [])"
    and "clean_pieces after"
  shows "\<forall>(b, f) \<in> set (graft_rest e b g others after).
           block_level b \<and> block_in_inline b = b \<and> split_line f = (f, [])"
  using assms
proof (induction e b g others after rule: graft_rest.induct)
  case (1 e b g f0 rest)
  then show ?case by simp
next
  case (2 e b g b' g' others after)
  then show ?case by simp
qed

lemma graft_clean:
  assumes "clean_pieces g" and "clean_pieces after"
  shows "clean_pieces (graft e g after)"
proof (cases g)
  case (Pair g0 grest)
  show ?thesis
  proof (cases grest)
    case Nil
    with Pair assms show ?thesis by (cases after) simp
  next
    case (Cons bg others)
    obtain b g1 where bg: "bg = (b, g1)" by (cases bg)
    from assms(1) Pair Cons bg have
      "block_level b" "block_in_inline b = b" "split_line g1 = (g1, [])"
      "\<forall>(b, f) \<in> set others. block_level b \<and> block_in_inline b = b \<and> split_line f = (f, [])"
      "split_line g0 = (g0, [])"
      by auto
    with graft_rest_clean [of b g1 others after e] assms(2) Pair Cons bg show ?thesis by simp
  qed
qed

lemma clean_piecesD:
  assumes "clean_pieces p"
  shows "split_line (fst p) = (fst p, [])"
    and "\<forall>(b, f) \<in> set (snd p). block_level b \<and> block_in_inline b = b \<and> split_line f = (f, [])"
  using assms by (cases p, simp)+

lemma clean_piecesI:
  assumes "split_line f0 = (f0, [])"
    and "\<forall>(b, f) \<in> set rest. block_level b \<and> block_in_inline b = b \<and> split_line f = (f, [])"
  shows "clean_pieces (f0, rest)"
  using assms by simp

lemma block_in_inline_stable:
  fixes b :: "'e box" and cs ks :: "'e box list"
  shows "block_in_inline (block_in_inline b) = block_in_inline b"
    and "expand_all (expand_all cs) = expand_all cs"
    and "clean_pieces (split_line ks)"
proof (induction b and cs and ks rule: block_in_inline_expand_all_split_line.induct)
  case (4 e ks cs)
  then show ?case by (simp add: expand_all_append expand_emit)
next
  case (7 t e ks cs)
  let ?c = "ParentBox t e ks"
  consider (block) "t = BlockBox \<or> t = AnonymousBlockBox"
    | (inline) "\<not> (t = BlockBox \<or> t = AnonymousBlockBox)" "t = InlineBox"
    | (other) "\<not> (t = BlockBox \<or> t = AnonymousBlockBox)" "t \<noteq> InlineBox"
    by blast
  then show ?case
  proof cases
    case block
    with 7 have p: "block_in_inline (block_in_inline ?c) = block_in_inline ?c"
      and r: "clean_pieces (split_line cs)" by blast+
    have s: "split_line (?c # cs) = ([], (block_in_inline ?c, fst (split_line cs)) # snd (split_line cs))"
      using block by simp
    have bl: "block_level (block_in_inline ?c)" using block by simp
    show ?thesis
      unfolding s using p bl clean_piecesD [OF r] by (intro clean_piecesI) simp_all
  next
    case inline
    with 7 have "clean_pieces (split_line ks)" and "clean_pieces (split_line cs)" by blast+
    then have "clean_pieces (graft e (split_line ks) (split_line cs))" by (rule graft_clean)
    with inline show ?thesis by simp
  next
    case other
    with 7 have p: "block_in_inline (block_in_inline ?c) = block_in_inline ?c"
      and r: "clean_pieces (split_line cs)" by blast+
    have s: "split_line (?c # cs) = (block_in_inline ?c # fst (split_line cs), snd (split_line cs))"
      using other by simp
    from p have p': "expand_all (expand_all ks) = expand_all ks" by simp
    have "split_line (block_in_inline ?c # fst (split_line cs)) = (block_in_inline ?c # fst (split_line cs), [])"
      using other clean_piecesD(1) [OF r] p' by simp
    then show ?thesis
      unfolding s using clean_piecesD(2) [OF r] by (intro clean_piecesI) simp_all
  qed
next
  case (8 v va cs)
  then have r: "clean_pieces (split_line cs)" by simp
  have "split_line (TextBox v va # fst (split_line cs)) = (TextBox v va # fst (split_line cs), [])"
    using clean_piecesD(1) [OF r] by simp
  then show ?case using clean_piecesD(2) [OF r] by simp
next
  case (9 v cs)
  then have r: "clean_pieces (split_line cs)" by simp
  have "split_line (ReplacedBox v # fst (split_line cs)) = (ReplacedBox v # fst (split_line cs), [])"
    using clean_piecesD(1) [OF r] by simp
  then show ?case using clean_piecesD(2) [OF r] by simp
qed simp_all

text \<open>
  The two models on the trees of the tests: \<open>test_inline_in_block\<close> expects the same
  tree after one and after two runs of inline_in_block, and \<open>test_block_in_inline\<close>
  the tree with the blocks pulled out of the inline boxes.
\<close>

lemma test_inline_in_block:
  "inline_in_block hello_tree = hello_expected
   \<and> inline_in_block (inline_in_block hello_tree) = hello_expected"
  by code_simp

lemma test_block_in_inline: "block_in_inline lorem_lines = lorem_expected"
  by code_simp

text \<open>
  C9: both normalization passes are idempotent: for every box tree, running
  inline_in_block on its own output gives that output again, and so does
  block_in_inline.
\<close>

theorem normalization_idempotent:
  "inline_in_block (inline_in_block T) = inline_in_block T
   \<and> block_in_inline (block_in_inline T) = block_in_inline T"
  by (simp add: inline_in_block_stable block_in_inline_stable(1))

text \<open>The theorem on the tree of the second test, before its lines are split.\<close>

theorem normalization_idempotent_witness:
  "inline_in_block (inline_in_block lorem_lines) = inline_in_block lorem_lines
   \<and> block_in_inline (block_in_inline lorem_lines) = lorem_expected"
  using normalization_idempotent [of lorem_lines] test_block_in_inline by simp

end
